theory Spec2Isabelle
  imports Main "HOL-Library.AList" "HOL-Library.Word"
begin

section \<open>Python values used by lightweight\_pptx\_recovery.py\<close>

text \<open>
  Python integers are unbounded and are modelled by \<open>int\<close>; lengths, positions and
  counters that the program only ever counts upwards from zero are \<open>nat\<close>.  Every
  exception the modelled code can raise is a value of \<open>py_error\<close>, returned as
  the left summand of a result.
\<close>

datatype py_error = ZeroDivisionError | IOError | ValueError

text \<open>Python's \<open>a // b\<close> on integers: floor division, raising on a zero divisor.\<close>

definition py_floordiv :: "int \<Rightarrow> int \<Rightarrow> py_error + int" where
  "py_floordiv a b = (if b = 0 then Inl ZeroDivisionError else Inr (a div b))"

text \<open>
  Python's slice \<open>xs[i:j]\<close> for integer bounds: a negative bound counts from the end,
  and every bound is clamped to the range of the list.
\<close>

definition py_bound :: "nat \<Rightarrow> int \<Rightarrow> nat" where
  "py_bound n i = (if i < 0 then nat (int n + i) else min n (nat i))"

definition py_slice :: "'a list \<Rightarrow> int \<Rightarrow> int \<Rightarrow> 'a list" where
  "py_slice xs i j =
     (let lo = py_bound (length xs) i; hi = py_bound (length xs) j
      in take (hi - lo) (drop lo xs))"

section \<open>Python strings\<close>

text \<open>
  A Python \<open>str\<close> is a sequence of code points.  It is modelled by \<open>string\<close>, each
  \<open>char\<close> being one code point below 256 (the ASCII and Latin-1 range), so that
  \<open>length\<close> is Python's \<open>len\<close>.  The character classes are those of Python's
  \<open>str.isspace\<close>, \<open>str.isupper\<close>, \<open>str.islower\<close> and of the regular
  expression class \<open>\d\<close> on that range.
\<close>

definition isspace :: "char \<Rightarrow> bool" where
  "isspace c = (c \<in> set [CHR 0x09, CHR 0x0A, CHR 0x0B, CHR 0x0C, CHR 0x0D, CHR 0x1C, CHR 0x1D,
                          CHR 0x1E, CHR 0x1F, CHR 0x20, CHR 0x85, CHR 0xA0])"

definition isupper :: "char \<Rightarrow> bool" where
  "isupper c = (let n = (of_char c :: nat)
                in (65 \<le> n \<and> n \<le> 90) \<or> (192 \<le> n \<and> n \<le> 222 \<and> n \<noteq> 215))"

definition islower :: "char \<Rightarrow> bool" where
  "islower c = (let n = (of_char c :: nat)
                in (97 \<le> n \<and> n \<le> 122) \<or> n = 170 \<or> n = 181 \<or> n = 186
                   \<or> (223 \<le> n \<and> n \<le> 255 \<and> n \<noteq> 247))"

definition isdigit :: "char \<Rightarrow> bool" where
  "isdigit c = (let n = (of_char c :: nat) in 48 \<le> n \<and> n \<le> 57)"

text \<open>\<open>s.lstrip()\<close>, \<open>s.rstrip()\<close>, \<open>s.strip()\<close> and \<open>s.endswith(suffix)\<close>.\<close>

definition lstrip :: "string \<Rightarrow> string" where
  "lstrip s = dropWhile isspace s"

definition rstrip :: "string \<Rightarrow> string" where
  "rstrip s = rev (dropWhile isspace (rev s))"

definition strip :: "string \<Rightarrow> string" where
  "strip s = rstrip (lstrip s)"

definition endswith :: "string \<Rightarrow> string \<Rightarrow> bool" where
  "endswith s suffix =
     (length suffix \<le> length s \<and> drop (length s - length suffix) s = suffix)"

text \<open>
  \<open>s.split()\<close>: the maximal runs of characters that are not whitespace.  The first
  argument of \<open>split_from\<close> is the word read so far.
\<close>

fun split_from :: "string \<Rightarrow> string \<Rightarrow> string list" where
  "split_from w [] = (if w = [] then [] else [w])"
| "split_from w (c # cs) =
     (if isspace c then (if w = [] then split_from [] cs else w # split_from [] cs)
      else split_from (w @ [c]) cs)"

definition split :: "string \<Rightarrow> string list" where
  "split s = split_from [] s"

text \<open>
  \<open>s.isupper()\<close>: no character is lowercase and at least one is uppercase (the range
  has no titlecase character).
\<close>

definition str_isupper :: "string \<Rightarrow> bool" where
  "str_isupper s = (\<not> list_ex islower s \<and> list_ex isupper s)"

text \<open>\<open>s.replace(old, new)\<close> for a pattern \<open>old\<close> of one character.\<close>

definition replace :: "string \<Rightarrow> char \<Rightarrow> string \<Rightarrow> string" where
  "replace s old new = concat (map (\<lambda>c. if c = old then new else [c]) s)"

text \<open>\<open>str(n)\<close> for a non-negative integer: its decimal digits.\<close>

definition digit_char :: "nat \<Rightarrow> char" where
  "digit_char d = char_of (48 + d)"

fun str :: "nat \<Rightarrow> string" where
  "str n = (if n < 10 then [digit_char n] else str (n div 10) @ [digit_char (n mod 10)])"

declare str.simps [simp del]

section \<open>is\_likely\_title (lines 201 to 228)\<close>

text \<open>
  \<open>re.match(r'^Slide\s+\d+', text, re.IGNORECASE)\<close>: the text starts with the letters
  of \<open>Slide\<close> in either case, then at least one whitespace character, then a
  digit.  Whitespace and digits are disjoint, so the greedy \<open>\s+\<close> takes the whole
  run of whitespace and never gives any of it back.
\<close>

definition match_slide_number :: "string \<Rightarrow> bool" where
  "match_slide_number text =
     (case text of
        c1 # c2 # c3 # c4 # c5 # rest \<Rightarrow>
          (c1 = CHR ''S'' \<or> c1 = CHR ''s'') \<and> (c2 = CHR ''L'' \<or> c2 = CHR ''l'') \<and>
          (c3 = CHR ''I'' \<or> c3 = CHR ''i'') \<and> (c4 = CHR ''D'' \<or> c4 = CHR ''d'') \<and>
          (c5 = CHR ''E'' \<or> c5 = CHR ''e'') \<and>
          takeWhile isspace rest \<noteq> [] \<and>
          (case dropWhile isspace rest of [] \<Rightarrow> False | d # _ \<Rightarrow> isdigit d)
      | _ \<Rightarrow> False)"

text \<open>
  The last test of the source is \<open>uppercase_words / len(words) >= 0.7\<close> in floating
  point.  It is only reached for texts of fewer than 60 characters, hence at most 30
  words, where the nearest quotient below 7/10 is further from it than any rounding
  error: the test is the exact comparison \<open>7 * len(words) \<le> 10 * uppercase_words\<close>.
\<close>

definition is_likely_title :: "string \<Rightarrow> bool" where
  "is_likely_title text =
     (if match_slide_number text then True
      else if length text < 60 then
        (if endswith (rstrip text) '':'' then True
         else if str_isupper text then True
         else
           let words = split text in
           if 2 \<le> length words then
             (let uppercase_words = length (filter (\<lambda>word. word \<noteq> [] \<and> isupper (hd word)) words)
              in if 7 * length words \<le> 10 * uppercase_words then True else False)
           else False)
      else False)"

section \<open>extract\_images\_from\_binary (lines 54 to 124)\<close>

text \<open>
  \<open>data.find(sub, start)\<close> on bytes, with \<open>None\<close> for the result \<open>-1\<close>:
  the lowest index at or after \<open>start\<close> where \<open>sub\<close> occurs.
\<close>

fun find_sub :: "'a list \<Rightarrow> 'a list \<Rightarrow> nat option" where
  "find_sub sub [] = (if sub = [] then Some 0 else None)"
| "find_sub sub (x # xs) =
     (if take (length sub) (x # xs) = sub then Some 0 else map_option Suc (find_sub sub xs))"

definition bytes_find :: "'a list \<Rightarrow> 'a list \<Rightarrow> nat \<Rightarrow> nat option" where
  "bytes_find data sub start =
     (if length data < start then None
      else map_option (\<lambda>k. start + k) (find_sub sub (drop start data)))"

type_synonym byte = "8 word"

definition png_header :: "byte list" where
  "png_header = [0x89, 0x50, 0x4E, 0x47, 0x0D, 0x0A, 0x1A, 0x0A]"

definition iend_marker :: "byte list" where
  "iend_marker = [0x49, 0x45, 0x4E, 0x44, 0xAE, 0x42, 0x60, 0x82]"

definition jpg_header :: "byte list" where
  "jpg_header = [0xFF, 0xD8, 0xFF]"

definition eoi_marker :: "byte list" where
  "eoi_marker = [0xFF, 0xD9]"

text \<open>
  The control flow of each \<open>while True\<close> loop: \<open>pos\<close> is moved to the next
  occurrence of the header, the end marker is searched from there, and \<open>pos\<close> is
  advanced by one.  The result lists the candidate ranges \<open>(pos, end_pos)\<close> in the
  order in which the loop cuts \<open>data[pos:end_pos]\<close>.
\<close>

function scan_signature :: "'a list \<Rightarrow> 'a list \<Rightarrow> 'a list \<Rightarrow> nat \<Rightarrow> (nat \<times> nat) list" where
  "scan_signature header marker data pos =
     (case bytes_find data header pos of
        None \<Rightarrow> []
      | Some p \<Rightarrow>
          (case bytes_find data marker p of
             None \<Rightarrow> []
           | Some end_pos \<Rightarrow> [(p, end_pos + length marker)])
          @ scan_signature header marker data (p + 1))"
  by pat_completeness auto
termination
proof (relation "measure (\<lambda>(header, marker, data, pos). length data + 1 - pos)")
  show "wf (measure (\<lambda>(header, marker, data, pos). length data + 1 - pos))" by simp
next
  fix header marker data :: "'a list" and pos p :: nat
  assume f: "bytes_find data header pos = Some p"
  then have le: "pos \<le> length data"
    by (simp add: bytes_find_def split: if_splits)
  have bound: "k \<le> length xs" if "find_sub header xs = Some k" for k and xs :: "'a list"
    using that by (induction xs arbitrary: k) (auto split: if_splits)
  from f le obtain k where k: "find_sub header (drop pos data) = Some k" "p = pos + k"
    by (auto simp: bytes_find_def)
  from bound[OF k(1)] have "k \<le> length data - pos" by simp
  with le k(2) have "pos \<le> p" "p \<le> length data" by simp_all
  then show "((header, marker, data, p + 1), (header, marker, data, pos))
      \<in> measure (\<lambda>(header, marker, data, pos). length data + 1 - pos)"
    by simp
qed

text \<open>
  The part of the loop body that cuts, validates and stores a candidate.  The validation
  \<open>Image.open\<close> belongs to the imaging library and is a parameter.  \<open>base\<close> is the
  number of images stored before this loop began.
\<close>

fun save_images :: "(byte list \<Rightarrow> bool) \<Rightarrow> string \<Rightarrow> nat \<Rightarrow> byte list list \<Rightarrow> nat
    \<Rightarrow> (string \<rightharpoonup> byte list) \<Rightarrow> nat \<times> (string \<rightharpoonup> byte list)" where
  "save_images image_open ext base [] count media = (count, media)"
| "save_images image_open ext base (image_data # rest) count media =
     (if image_open image_data
      then save_images image_open ext base rest (count + 1)
             (media(''image_'' @ str (base + count + 1) @ ext \<mapsto> image_data))
      else save_images image_open ext base rest count media)"

definition cut :: "byte list \<Rightarrow> nat \<times> nat \<Rightarrow> byte list" where
  "cut data r = take (snd r - fst r) (drop (fst r) data)"

definition extract_images_from_binary ::
  "(byte list \<Rightarrow> bool) \<Rightarrow> byte list \<Rightarrow> nat \<times> (string \<rightharpoonup> byte list)" where
  "extract_images_from_binary image_open data =
     (let (png_count, media) =
            save_images image_open ''.png'' 0
              (map (cut data) (scan_signature png_header iend_marker data 0)) 0 Map.empty;
          (jpg_count, media) =
            save_images image_open ''.jpg'' png_count
              (map (cut data) (scan_signature jpg_header eoi_marker data 0)) 0 media
      in (png_count + jpg_count, media))"

section \<open>load\_extracted\_text\_file (lines 192 to 199)\<close>

text \<open>
  \<open>re.split(r'\n\s*\n', content)\<close>.  A match starts at a newline; the greedy
  \<open>\s*\<close> takes the whole run of whitespace after it and gives characters back
  until the last newline of that run is left for the final \<open>\n\<close>.  So a newline
  starts a match exactly when the whitespace run after it holds another newline, and
  the match ends with the last newline of the run.  \<open>last_newline ws\<close> is the number
  of characters of \<open>ws\<close> up to and including its last newline.
\<close>

definition last_newline :: "string \<Rightarrow> nat option" where
  "last_newline ws =
     (if CHR 0x0A \<in> set ws then Some (length ws - length (takeWhile (\<lambda>c. c \<noteq> CHR 0x0A) (rev ws)))
      else None)"

fun re_split_from :: "string \<Rightarrow> string \<Rightarrow> string list" where
  "re_split_from piece [] = [piece]"
| "re_split_from piece (c # cs) =
     (if c = CHR 0x0A then
        (case last_newline (takeWhile isspace cs) of
           Some k \<Rightarrow> piece # re_split_from [] (drop k cs)
         | None \<Rightarrow> re_split_from (piece @ [c]) cs)
      else re_split_from (piece @ [c]) cs)"

definition re_split_blank_lines :: "string \<Rightarrow> string list" where
  "re_split_blank_lines content = re_split_from [] content"

text \<open>The function after the file has been read: \<open>content\<close> is the decoded text.\<close>

definition load_extracted_text_file :: "string \<Rightarrow> string list" where
  "load_extracted_text_file content =
     (let paragraphs = re_split_blank_lines content
      in map strip (filter (\<lambda>p. strip p \<noteq> []) paragraphs))"

section \<open>organize\_text\_into\_slides (lines 230 to 327)\<close>

text \<open>
  One entry of \<open>slides_content\<close>.  The dictionary itself is an association list in
  insertion order, which is the order of a Python \<open>dict\<close>; \<open>AList.update\<close> is
  the assignment \<open>d[k] = v\<close>.
\<close>

record slide =
  title :: string
  content :: "string list"
  images :: "string list"

type_synonym slides = "(nat \<times> slide) list"

text \<open>The first loop: drop short paragraphs and paragraphs seen before.\<close>

fun filter_paragraphs :: "string list \<Rightarrow> string set \<Rightarrow> string list \<Rightarrow> string list" where
  "filter_paragraphs [] seen filtered_paragraphs = filtered_paragraphs"
| "filter_paragraphs (para # rest) seen filtered_paragraphs =
     (if length (strip para) < 5 then filter_paragraphs rest seen filtered_paragraphs
      else if para \<in> seen then filter_paragraphs rest seen filtered_paragraphs
      else filter_paragraphs rest (insert para seen) (filtered_paragraphs @ [para]))"

text \<open>The initial pass over \<open>enumerate(paragraphs)\<close> that collects \<open>title_indices\<close>.\<close>

definition initial_title_indices :: "string list \<Rightarrow> nat list" where
  "initial_title_indices paragraphs =
     filter (\<lambda>i. is_likely_title (paragraphs ! i)
                 \<or> (0 < i \<and> length (paragraphs ! i) < 50 \<and> length (paragraphs ! (i - 1)) < 3))
       [0 ..< length paragraphs]"

text \<open>The second pass, run when few titles were found: it appends further break points.\<close>

definition add_break_points :: "string list \<Rightarrow> nat list \<Rightarrow> nat list" where
  "add_break_points paragraphs title_indices =
     fold (\<lambda>i tis.
             if endswith (strip (paragraphs ! i)) '':'' \<or> endswith (strip (paragraphs ! i)) ''.''
             then (if i \<notin> set tis then tis @ [i] else tis)
             else tis)
       [0 ..< length paragraphs] title_indices"

text \<open>
  \<open>range(0, n, step)\<close> for a positive step: the multiples of \<open>step\<close> below \<open>n\<close>.
\<close>

definition range_step :: "nat \<Rightarrow> nat \<Rightarrow> nat list" where
  "range_step n step = filter (\<lambda>i. i mod step = 0) [0 ..< n]"

text \<open>
  The state of both loops is the pair of \<open>current_slide\<close> and \<open>slides_content\<close>.
  \<open>chunk_step\<close> is the body of the loop that cuts the paragraphs into chunks of
  \<open>paras_per_slide\<close>, \<open>title_step\<close> the body of the loop over \<open>title_indices\<close>.
\<close>

definition chunk_step :: "string list \<Rightarrow> nat \<Rightarrow> nat \<Rightarrow> nat \<times> slides \<Rightarrow> nat \<times> slides" where
  "chunk_step paragraphs paras_per_slide i st =
     (let current_slide = fst st; slides_content = snd st;
          slide_paras = take paras_per_slide (drop i paragraphs)
      in if slide_paras = [] then st
         else
           let title = (if length (hd slide_paras) < 60 then hd slide_paras
                        else ''Slide '' @ str current_slide);
               content = (if hd slide_paras = title then tl slide_paras else slide_paras)
           in if content = [] \<and> title = ''Slide '' @ str current_slide then st
              else (current_slide + 1,
                    AList.update current_slide
                      \<lparr>title = title, content = content, images = []\<rparr> slides_content))"

definition title_step :: "string list \<Rightarrow> nat list \<Rightarrow> nat \<Rightarrow> nat \<times> slides \<Rightarrow> nat \<times> slides" where
  "title_step paragraphs title_indices i st =
     (let current_slide = fst st; slides_content = snd st;
          start_idx = title_indices ! i;
          end_idx = (if i + 1 < length title_indices then title_indices ! (i + 1)
                     else length paragraphs);
          title = paragraphs ! start_idx;
          content = take (end_idx - (start_idx + 1)) (drop (start_idx + 1) paragraphs)
      in if content = [] then st
         else (current_slide + 1,
               AList.update current_slide
                 \<lparr>title = title, content = content, images = []\<rparr> slides_content))"

text \<open>
  The dictionary comprehension \<open>{k: d[k] for k in keys}\<close>.  A key that \<open>d\<close> does
  not hold would raise; the comprehension is only run on keys taken from \<open>d\<close>.
\<close>

definition restrict_keys :: "('k \<times> 'v) list \<Rightarrow> 'k list \<Rightarrow> ('k \<times> 'v) list" where
  "restrict_keys d keys =
     concat (map (\<lambda>k. case map_of d k of Some v \<Rightarrow> [(k, v)] | None \<Rightarrow> []) keys)"

definition prepare_paragraphs :: "string list \<Rightarrow> int \<Rightarrow> string list" where
  "prepare_paragraphs paragraphs max_slides =
     (let filtered_paragraphs = filter_paragraphs paragraphs {} [];
          max_paragraphs = max_slides * 8
      in if max_paragraphs < int (length filtered_paragraphs)
         then py_slice filtered_paragraphs 0 max_paragraphs
         else filtered_paragraphs)"

definition find_title_indices :: "string list \<Rightarrow> int \<Rightarrow> nat list" where
  "find_title_indices paragraphs max_slides =
     (let title_indices = initial_title_indices paragraphs;
          title_indices = (if int (length title_indices) < max_slides div 2
                           then add_break_points paragraphs title_indices
                           else title_indices)
      in sort title_indices)"

text \<open>The test that sends the segmenter to the chunks of fixed size.\<close>

definition uses_chunks :: "nat list \<Rightarrow> bool" where
  "uses_chunks title_indices = (title_indices = [] \<or> length title_indices < 5)"

definition organize_text_into_slides :: "string list \<Rightarrow> int \<Rightarrow> slides" where
  "organize_text_into_slides paragraphs0 max_slides =
     (let paragraphs = prepare_paragraphs paragraphs0 max_slides;
          title_indices = find_title_indices paragraphs max_slides;
          st =
            (if uses_chunks title_indices then
               (let paras_per_slide =
                      nat (max 1 (min 8 (int (length paragraphs) div max 1 (min max_slides 15))))
                in fold (chunk_step paragraphs paras_per_slide)
                     (range_step (length paragraphs) paras_per_slide) (1, []))
             else fold (title_step paragraphs title_indices) [0 ..< length title_indices] (1, []));
          slides_content = snd st
      in if max_slides < int (length slides_content)
         then restrict_keys slides_content (py_slice (sort (map fst slides_content)) 0 max_slides)
         else slides_content)"

section \<open>distribute\_images (lines 329 to 350)\<close>

text \<open>
  \<open>slides_content[slide_num]['images'].append(img_file)\<close>: the entry of key
  \<open>slide_num\<close> gets the file name at the end of its list of images.
\<close>

definition append_image :: "nat \<Rightarrow> string \<Rightarrow> slides \<Rightarrow> slides" where
  "append_image slide_num img_file slides_content =
     map (\<lambda>(k, s). if k = slide_num then (k, s\<lparr>images := images s @ [img_file]\<rparr>) else (k, s))
       slides_content"

text \<open>
  The body of the loop over \<open>range(image_count)\<close>, and the loop, which an
  exception leaves.  \<open>i % len(slide_numbers)\<close> raises \<open>ZeroDivisionError\<close>
  when there is no slide.
\<close>

definition distribute_step :: "nat list \<Rightarrow> nat \<Rightarrow> slides \<Rightarrow> py_error + slides" where
  "distribute_step slide_numbers i slides_content =
     (let img_num = i + 1 in
      if length slide_numbers = 0 then Inl ZeroDivisionError
      else
        let slide_idx = i mod length slide_numbers;
            slide_num = slide_numbers ! slide_idx;
            img_file = ''image_'' @ str img_num @ ''.png''
        in Inr (append_image slide_num img_file slides_content))"

fun distribute_loop :: "nat list \<Rightarrow> nat list \<Rightarrow> slides \<Rightarrow> py_error + slides" where
  "distribute_loop slide_numbers [] slides_content = Inr slides_content"
| "distribute_loop slide_numbers (i # rest) slides_content =
     (case distribute_step slide_numbers i slides_content of
        Inl e \<Rightarrow> Inl e
      | Inr slides_content' \<Rightarrow> distribute_loop slide_numbers rest slides_content')"

definition distribute_images :: "slides \<Rightarrow> nat \<Rightarrow> py_error + slides" where
  "distribute_images slides_content image_count =
     (let slide_numbers = sort (map fst slides_content)
      in distribute_loop slide_numbers [0 ..< image_count] slides_content)"

section \<open>create\_placeholder\_slide (lines 352 to 502)\<close>

text \<open>
  The two XML documents are built by string interpolation into fixed templates.  The
  model keeps every interpolated value and the element it is written into: the title
  run, one text shape per body paragraph, one picture per image, and one relationship
  per image; the fixed markup around them is not represented.
\<close>

record text_shape =
  sp_id :: nat
  sp_name :: string
  sp_y :: nat
  sp_text :: string

record picture =
  pic_id :: nat
  pic_name :: string
  blip_embed :: string
  pic_x :: nat
  pic_y :: nat

record slide_part =
  sld_title :: string
  sld_texts :: "text_shape list"
  sld_pics :: "picture list"

record relationship =
  rel_id :: string
  rel_target :: string

definition escape_xml :: "string \<Rightarrow> string" where
  "escape_xml s = replace (replace (replace s (CHR ''&'') ''&amp;'') (CHR ''<'') ''&lt;'')
                    (CHR ''>'') ''&gt;''"

definition sanitize_title :: "string \<Rightarrow> string" where
  "sanitize_title title0 =
     (let title = escape_xml title0
      in if 100 < length title then take 97 title @ ''...'' else title)"

definition sanitize_text :: "string \<Rightarrow> string" where
  "sanitize_text para =
     (let text = escape_xml para
      in if 1000 < length text then take 997 text @ ''...'' else text)"

definition create_placeholder_slide ::
  "nat \<Rightarrow> string \<Rightarrow> string list \<Rightarrow> string list \<Rightarrow> slide_part \<times> relationship list" where
  "create_placeholder_slide slide_num title0 content_paragraphs images0 =
     (let title = sanitize_title title0;
          max_content_paragraphs = min 8 (length content_paragraphs);
          texts = map (\<lambda>(i, para).
                         \<lparr>sp_id = i + 3, sp_name = ''Text '' @ str (i + 1),
                          sp_y = 1500000 + i * 600000, sp_text = sanitize_text para\<rparr>)
                    (enumerate 0 (take max_content_paragraphs content_paragraphs));
          max_images = min 4 (length images0);
          pics = map (\<lambda>(i, img_file).
                        let row = i div 2; col = i mod 2; rid = i + 1
                        in \<lparr>pic_id = i + 20, pic_name = ''Picture '' @ str (i + 1),
                            blip_embed = ''rId'' @ str rid,
                            pic_x = 1388800 + col * 4000000,
                            pic_y = 5000000 + row * 2000000\<rparr>)
                   (enumerate 0 (take max_images images0));
          rels = map (\<lambda>(i, img_file).
                        let rid = i + 1
                        in \<lparr>rel_id = ''rId'' @ str rid, rel_target = ''../media/'' @ img_file\<rparr>)
                   (enumerate 0 (take max_images images0))
      in (\<lparr>sld_title = title, sld_texts = texts, sld_pics = pics\<rparr>, rels))"

section \<open>create\_pptx\_structure and create\_placeholder\_image (lines 504 to 655)\<close>

text \<open>
  Writing files can fail, and a failure is an exception of the Python library.  Which
  writes fail is given by the environment: \<open>build_raises n\<close> says that creating the
  directories or writing the XML parts of part \<open>n\<close> raises, \<open>save_raises name\<close> that
  \<open>img.save\<close> of the placeholder for the image \<open>name\<close> raises (the imaging library
  raises \<open>ValueError\<close> for a file name whose extension it does not know), and
  \<open>zip_raises n\<close> that writing the archive of part \<open>n\<close> raises.
\<close>

record io_env =
  build_raises :: "nat \<Rightarrow> bool"
  save_raises :: "string \<Rightarrow> bool"
  zip_raises :: "nat \<Rightarrow> bool"

text \<open>
  A file of a media directory is either a copy of carved bytes or the placeholder
  picture drawn by \<open>create_placeholder_image\<close>, which carries the name of the missing
  image as its caption.  A media directory is a finite map from file names to files.
\<close>

datatype media_file = Copied "byte list" | Placeholder string

definition create_placeholder_image :: "io_env \<Rightarrow> string \<Rightarrow> py_error + media_file" where
  "create_placeholder_image env img_name =
     (if save_raises env img_name then Inl ValueError else Inr (Placeholder img_name))"

record package =
  pkg_dir :: string
  pkg_overrides :: "string list"
  pkg_slide_ids :: "(nat \<times> string) list"
  pkg_presentation_rels :: "relationship list"
  pkg_slides :: "(string \<times> slide_part \<times> relationship list) list"
  pkg_media :: "string \<rightharpoonup> media_file"

text \<open>
  The body of the loop that writes the slides: slide number \<open>slide_num\<close> of the range
  is written as \<open>slide{i+1}.xml\<close>; a number without content gets a filler slide.
\<close>

definition slide_entry :: "slides \<Rightarrow> nat \<Rightarrow> slide" where
  "slide_entry current_slides slide_num =
     (case map_of current_slides slide_num of
        None \<Rightarrow> \<lparr>title = ''Recovered Slide '' @ str slide_num, content = [], images = []\<rparr>
      | Some slide_data \<Rightarrow> slide_data)"

text \<open>
  The body of the loop \<open>for img_file in set(all_used_images)\<close>, and the loop, which an
  exception leaves.  The loop visits every used file name once; the order of a Python
  set is not fixed, and the result does not depend on it.
\<close>

definition copy_image :: "io_env \<Rightarrow> (string \<rightharpoonup> byte list) \<Rightarrow> string
    \<Rightarrow> (string \<rightharpoonup> media_file) \<Rightarrow> py_error + (string \<rightharpoonup> media_file)" where
  "copy_image env media_store img_file media =
     (case media_store img_file of
        Some bytes \<Rightarrow> Inr (media(img_file \<mapsto> Copied bytes))
      | None \<Rightarrow>
          (case create_placeholder_image env img_file of
             Inl e \<Rightarrow> Inl e
           | Inr placeholder \<Rightarrow> Inr (media(img_file \<mapsto> placeholder))))"

fun copy_images :: "io_env \<Rightarrow> (string \<rightharpoonup> byte list) \<Rightarrow> string list
    \<Rightarrow> (string \<rightharpoonup> media_file) \<Rightarrow> py_error + (string \<rightharpoonup> media_file)" where
  "copy_images env media_store [] media = Inr media"
| "copy_images env media_store (img_file # rest) media =
     (case copy_image env media_store img_file media of
        Inl e \<Rightarrow> Inl e
      | Inr media' \<Rightarrow> copy_images env media_store rest media')"

definition create_pptx_structure ::
  "io_env \<Rightarrow> (string \<rightharpoonup> byte list) \<Rightarrow> slides \<Rightarrow> nat \<Rightarrow> nat \<Rightarrow> nat
    \<Rightarrow> py_error + package" where
  "create_pptx_structure env media_store slides_content part_num start_slide end_slide =
     (if build_raises env part_num then Inl IOError
      else
        let slide_range = enumerate 0 [start_slide ..< end_slide + 1];
            current_slides = filter (\<lambda>(num, s). num \<in> set [start_slide ..< end_slide + 1])
                               slides_content;
            all_used_images =
              concat (map (\<lambda>(i, slide_num). images (slide_entry current_slides slide_num))
                        slide_range)
        in case copy_images env media_store (remdups all_used_images) Map.empty of
             Inl e \<Rightarrow> Inl e
           | Inr media \<Rightarrow>
               Inr \<lparr>pkg_dir = ''part_'' @ str part_num,
                    pkg_overrides =
                      map (\<lambda>(i, slide_num). ''/ppt/slides/slide'' @ str (i + 1) @ ''.xml'')
                        slide_range,
                    pkg_slide_ids =
                      map (\<lambda>(i, slide_num). (256 + i, ''rId'' @ str (1000 + i))) slide_range,
                    pkg_presentation_rels =
                      map (\<lambda>(i, slide_num).
                             \<lparr>rel_id = ''rId'' @ str (1000 + i),
                              rel_target = ''slides/slide'' @ str (i + 1) @ ''.xml''\<rparr>)
                        slide_range,
                    pkg_slides =
                      map (\<lambda>(i, slide_num).
                             let slide_data = slide_entry current_slides slide_num;
                                 (slide_xml, slide_rels_xml) =
                                   create_placeholder_slide slide_num (title slide_data)
                                     (content slide_data) (images slide_data)
                             in (''slide'' @ str (i + 1) @ ''.xml'', slide_xml, slide_rels_xml))
                        slide_range,
                    pkg_media = media\<rparr>)"

section \<open>The splitter of main (lines 716 to 751)\<close>

text \<open>
  \<open>split_plan total s f\<close> is the computation of \<open>slides_per_file\<close> and
  \<open>num_files\<close> from \<open>total_slides\<close>, \<open>args.slides_per_file\<close> and
  \<open>args.max_files\<close>; each of the three divisions can raise.
\<close>

definition split_plan :: "int \<Rightarrow> int \<Rightarrow> int \<Rightarrow> py_error + (int \<times> int)" where
  "split_plan total_slides s f =
     (let slides_per_file = min s total_slides in
      case py_floordiv (total_slides + slides_per_file - 1) slides_per_file of
        Inl e \<Rightarrow> Inl e
      | Inr q \<Rightarrow>
          let desired_files = min f q in
          (case py_floordiv (total_slides + desired_files - 1) desired_files of
             Inl e \<Rightarrow> Inl e
           | Inr slides_per_file' \<Rightarrow>
               (case py_floordiv (total_slides + slides_per_file' - 1) slides_per_file' of
                  Inl e \<Rightarrow> Inl e
                | Inr num_files \<Rightarrow> Inr (slides_per_file', num_files))))"

text \<open>
  The body of the loop \<open>for i in range(num_files)\<close> up to the \<open>continue\<close>:
  the slide numbers of partition \<open>i\<close>.
\<close>

definition file_slide_numbers :: "'a list \<Rightarrow> int \<Rightarrow> nat \<Rightarrow> 'a list" where
  "file_slide_numbers slide_numbers slides_per_file i =
     py_slice slide_numbers (int i * slides_per_file)
       (min ((int i + 1) * slides_per_file) (int (length slide_numbers)))"

section \<open>create\_pptx and main (lines 657 to 770)\<close>

record args =
  arg_max_slides :: int
  arg_slides_per_file :: int
  arg_max_files :: int
  arg_extract_dir :: "string option"

datatype event =
    Built nat
  | Written nat
  | LoggedFailure nat
  | RemovedPartDir nat
  | RemovedExtractDir

datatype outcome = Returned int | Raised py_error

text \<open>\<open>create_pptx\<close> returns \<open>True\<close> or raises; it has no other return.\<close>

definition create_pptx :: "io_env \<Rightarrow> nat \<Rightarrow> py_error + bool" where
  "create_pptx env n = (if zip_raises env n then Inl IOError else Inr True)"

text \<open>
  The body of the loop \<open>for i in range(num_files)\<close>.  Its state is the list of events
  so far and the list of the archives written, each with its file name.  The events
  record what the run did: \<open>Built n\<close> that the directory of part \<open>n\<close> was built,
  \<open>Written n\<close> that its archive was written, \<open>LoggedFailure n\<close> that the failure
  of archive \<open>n\<close> was logged, \<open>RemovedPartDir n\<close> and \<open>RemovedExtractDir\<close>
  that the directory of part \<open>n\<close> and the working directory were removed.
\<close>

definition file_content :: "slides \<Rightarrow> nat list \<Rightarrow> slides" where
  "file_content slides_content file_slide_numbers' =
     concat (map (\<lambda>(j, num). case map_of slides_content num of
                                 Some v \<Rightarrow> [(j + 1, v)] | None \<Rightarrow> [])
               (enumerate 0 file_slide_numbers'))"

definition archive_step ::
  "io_env \<Rightarrow> args \<Rightarrow> (string \<rightharpoonup> byte list) \<Rightarrow> slides \<Rightarrow> nat \<Rightarrow> nat list
    \<Rightarrow> event list \<times> (string \<times> package) list
    \<Rightarrow> py_error \<times> event list \<times> (string \<times> package) list
        + event list \<times> (string \<times> package) list" where
  "archive_step env a media_store slides_content i file_slide_numbers' st =
     (let events = fst st; archives = snd st in
      if file_slide_numbers' = [] then Inr st
      else
        case create_pptx_structure env media_store
               (file_content slides_content file_slide_numbers')
               (i + 1) 1 (length file_slide_numbers') of
          Inl e \<Rightarrow> Inl (e, events, archives)
        | Inr pptx_dir \<Rightarrow>
            let events = events @ [Built (i + 1)];
                output_file = ''rebuilt_part_'' @ str (i + 1) @ ''.pptx''
            in case create_pptx env (i + 1) of
                 Inl e \<Rightarrow> Inl (e, events, archives)
               | Inr ok \<Rightarrow>
                   if \<not> ok then Inr (events @ [LoggedFailure (i + 1)], archives)
                   else
                     let events = events @ [Written (i + 1)];
                         archives = archives @ [(output_file, pptx_dir)]
                     in if arg_extract_dir a = None
                        then Inr (events @ [RemovedPartDir (i + 1)], archives)
                        else Inr (events, archives))"

fun archive_loop ::
  "io_env \<Rightarrow> args \<Rightarrow> (string \<rightharpoonup> byte list) \<Rightarrow> slides \<Rightarrow> (nat \<times> nat list) list
    \<Rightarrow> event list \<times> (string \<times> package) list
    \<Rightarrow> py_error \<times> event list \<times> (string \<times> package) list
        + event list \<times> (string \<times> package) list" where
  "archive_loop env a media_store slides_content [] st = Inr st"
| "archive_loop env a media_store slides_content ((i, ns) # rest) st =
     (case archive_step env a media_store slides_content i ns st of
        Inl err \<Rightarrow> Inl err
      | Inr st' \<Rightarrow> archive_loop env a media_store slides_content rest st')"

text \<open>
  \<open>main\<close> from the call of \<open>organize_text_into_slides\<close> on: \<open>image_count\<close> and
  \<open>media_store\<close> are what the carver returned and wrote, \<open>text_paragraphs\<close> the text
  that was loaded or extracted.  \<open>main_try\<close> is the body of the \<open>try\<close>, \<open>main\<close>
  adds the \<open>finally\<close> clause, which runs however the body ends.
\<close>

definition main_try ::
  "io_env \<Rightarrow> args \<Rightarrow> (string \<rightharpoonup> byte list) \<Rightarrow> nat \<Rightarrow> string list
    \<Rightarrow> outcome \<times> event list \<times> (string \<times> package) list" where
  "main_try env a media_store image_count text_paragraphs =
     (let max_slides = min 100 (arg_max_slides a);
          slides_content = organize_text_into_slides text_paragraphs max_slides
      in case distribute_images slides_content image_count of
           Inl e \<Rightarrow> (Raised e, [], [])
         | Inr slides_content \<Rightarrow>
             let slide_numbers = sort (map fst slides_content);
                 total_slides = length slide_numbers
             in if total_slides = 0 then (Returned 1, [], [])
                else
                  (case split_plan (int total_slides) (arg_slides_per_file a) (arg_max_files a) of
                     Inl e \<Rightarrow> (Raised e, [], [])
                   | Inr (slides_per_file, num_files) \<Rightarrow>
                       (case archive_loop env a media_store slides_content
                               (enumerate 0 (map (file_slide_numbers slide_numbers slides_per_file)
                                                [0 ..< nat num_files]))
                               ([], []) of
                          Inl (e, events, archives) \<Rightarrow> (Raised e, events, archives)
                        | Inr (events, archives) \<Rightarrow> (Returned 0, events, archives))))"

definition main ::
  "io_env \<Rightarrow> args \<Rightarrow> (string \<rightharpoonup> byte list) \<Rightarrow> nat \<Rightarrow> string list
    \<Rightarrow> outcome \<times> event list \<times> (string \<times> package) list" where
  "main env a media_store image_count text_paragraphs =
     (let (result, events, archives) = main_try env a media_store image_count text_paragraphs
      in (result,
          (if arg_extract_dir a = None then events @ [RemovedExtractDir] else events),
          archives))"

section \<open>Invariants used in the proofs\<close>

text \<open>
  The state of the loops of \<open>organize_text_into_slides\<close> is numbered when the keys of
  \<open>slides_content\<close>, in insertion order, are \<open>1, 2, \<dots>, current_slide - 1\<close>.
\<close>

definition numbered :: "nat \<times> slides \<Rightarrow> bool" where
  "numbered st = (1 \<le> fst st \<and> map fst (snd st) = [1 ..< fst st])"



text \<open>
  The carver: \<open>occurs_at sub data p\<close> says that the bytes \<open>sub\<close> stand at position
  \<open>p\<close> of \<open>data\<close>; \<open>candidate_at marker data p\<close> is the range that the loop body
  cuts for a signature found at \<open>p\<close>, up to the end of the first end marker at or after
  \<open>p\<close>, and nothing when there is no end marker; \<open>non_overlapping\<close> says of a list
  of ranges that each one begins where an earlier one has ended, or later.
\<close>

definition occurs_at :: "'a list \<Rightarrow> 'a list \<Rightarrow> nat \<Rightarrow> bool" where
  "occurs_at sub data p = (take (length sub) (drop p data) = sub)"

definition candidate_at :: "'a list \<Rightarrow> 'a list \<Rightarrow> nat \<Rightarrow> (nat \<times> nat) list" where
  "candidate_at marker data p =
     (case bytes_find data marker p of
        None \<Rightarrow> []
      | Some q \<Rightarrow> [(p, q + length marker)])"

definition non_overlapping :: "(nat \<times> nat) list \<Rightarrow> bool" where
  "non_overlapping ranges = sorted_wrt (\<lambda>r r'. snd r \<le> fst r') ranges"

section \<open>The splitter: proofs\<close>

lemma py_bound_nat: "py_bound n (int m) = min n m"
  by (simp add: py_bound_def)

lemma fsn_nat:
  assumes "0 < k"
  shows "file_slide_numbers xs (int k) i = take k (drop (i * k) xs)"
proof -
  have a: "int i * int k = int (i * k)" by simp
  have b0: "(int i + 1) * int k = int ((i + 1) * k)" by (simp add: algebra_simps)
  have b: "min ((int i + 1) * int k) (int (length xs)) = int (min ((i + 1) * k) (length xs))"
    unfolding b0 by (simp only: of_nat_min)
  have "file_slide_numbers xs (int k) i =
        py_slice xs (int (i * k)) (int (min ((i + 1) * k) (length xs)))"
    by (simp only: file_slide_numbers_def a b)
  also have "\<dots> = take (min (length xs) (min ((i + 1) * k) (length xs)) - min (length xs) (i * k))
          (drop (min (length xs) (i * k)) xs)"
    by (simp only: py_slice_def py_bound_nat Let_def)
  also have "\<dots> = take k (drop (i * k) xs)"
  proof (cases "i * k \<le> length xs")
    case True
    then show ?thesis by (auto simp: min_def algebra_simps)
  next
    case False
    then show ?thesis by simp
  qed
  finally show ?thesis .
qed

lemma concat_chunks:
  "concat (map (\<lambda>i. take k (drop (i * k) xs)) [0 ..< n]) = take (n * k) xs"
proof (induction n)
  case 0
  then show ?case by simp
next
  case (Suc n)
  have "take (n * k + k) xs = take (n * k) xs @ take k (drop (n * k) xs)"
    by (rule take_add)
  with Suc show ?case by (simp add: add.commute)
qed

lemma ceil_div_nat:
  assumes "0 < (b::int)" "0 \<le> a"
  shows "(a + b - 1) div b * b \<ge> a" and "((a + b - 1) div b - 1) * b < a"
proof -
  define p where "p = (a + b - 1) div b * b"
  define r where "r = (a + b - 1) mod b"
  have "a + b - 1 = p + r" unfolding p_def r_def by simp
  moreover have "r < b" "0 \<le> r" using assms by (simp_all add: r_def)
  ultimately have "a \<le> p" "p - b < a" by linarith+
  then show "(a + b - 1) div b * b \<ge> a" "((a + b - 1) div b - 1) * b < a"
    by (simp_all add: p_def algebra_simps)
qed


lemma pos_factor:
  assumes "(1::int) \<le> t" "t \<le> a * b" "1 \<le> b"
  shows "1 \<le> a"
proof (rule ccontr)
  assume "\<not> 1 \<le> a"
  then have "a \<le> 0" by simp
  then have "a * b \<le> 0" using assms(3) by (simp add: mult_nonpos_nonneg)
  then show False using assms(1,2) by linarith
qed

lemma split_plan_ok:
  assumes "1 \<le> T" "1 \<le> S" "1 \<le> F"
  shows "\<exists>spf N. split_plan T S F = Inr (spf, N) \<and> 1 \<le> spf \<and> 1 \<le> N \<and> N \<le> F \<and> N \<le> T
           \<and> T \<le> N * spf \<and> (N - 1) * spf < T"
proof -
  define spf0 where "spf0 = min S T"
  define q where "q = (T + spf0 - 1) div spf0"
  define d where "d = min F q"
  define spf where "spf = (T + d - 1) div d"
  define N where "N = (T + spf - 1) div spf"
  have spf0: "1 \<le> spf0" using assms by (simp add: spf0_def)
  have "T \<le> q * spf0" unfolding q_def using ceil_div_nat(1)[of spf0 T] spf0 assms by simp
  then have q: "1 \<le> q" using spf0 assms(1) by (rule pos_factor[rotated])
  then have d: "1 \<le> d" using assms by (simp add: d_def)
  have Td: "T \<le> spf * d" unfolding spf_def using ceil_div_nat(1)[of d T] d assms by simp
  then have spf: "1 \<le> spf" using d assms(1) by (rule pos_factor[rotated])
  have TN: "T \<le> N * spf" unfolding N_def using ceil_div_nat(1)[of spf T] spf assms by simp
  then have N1: "1 \<le> N" using spf assms(1) by (rule pos_factor[rotated])
  have lt: "(N - 1) * spf < T" unfolding N_def using ceil_div_nat(2)[of spf T] spf assms by simp
  have "(N - 1) * spf < d * spf" using lt Td by (simp add: mult.commute)
  then have "N - 1 < d" using spf by (simp add: mult_less_cancel_right)
  then have Nd: "N \<le> d" by simp
  then have NF: "N \<le> F" by (simp add: d_def)
  have "N - 1 \<le> (N - 1) * spf" using N1 spf by (simp add: mult_le_cancel_left1)
  then have NT: "N \<le> T" using lt by simp
  have nz: "spf0 \<noteq> 0" "d \<noteq> 0" "spf \<noteq> 0" using spf0 d spf by simp_all
  have "split_plan T S F = Inr (spf, N)"
    using nz
    by (simp add: split_plan_def py_floordiv_def Let_def spf0_def[symmetric] q_def[symmetric]
        d_def[symmetric] spf_def[symmetric] N_def[symmetric])
  with spf N1 NF NT TN lt show ?thesis by blast
qed

lemma fsn_fun:
  assumes "0 < k"
  shows "file_slide_numbers xs (int k) = (\<lambda>i. take k (drop (i * k) xs))"
proof
  fix i show "file_slide_numbers xs (int k) i = take k (drop (i * k) xs)"
    using assms by (rule fsn_nat)
qed

lemma chunk_nonempty:
  assumes "0 < k" "(n - 1) * k < length xs" "i < n"
  shows "take k (drop (i * k) xs) \<noteq> []"
proof -
  have "i \<le> n - 1" using assms(3) by simp
  then have "i * k \<le> (n - 1) * k" by (rule mult_le_mono1)
  then have "i * k < length xs" using assms(2) by linarith
  then show ?thesis using assms(1) by simp
qed

section \<open>The segmenter: numbering\<close>

lemma update_fresh: "k \<notin> fst ` set al \<Longrightarrow> AList.update k v al = al @ [(k, v)]"
  by (induction al) auto

lemma numbered_add:
  assumes "numbered (cur, sc)"
  shows "numbered (Suc cur, AList.update cur v sc)"
proof -
  from assms have c: "1 \<le> cur" and m: "map fst sc = [1 ..< cur]" by (simp_all add: numbered_def)
  have "fst ` set sc = set (map fst sc)" by simp
  then have "cur \<notin> fst ` set sc" unfolding m by simp
  then have "AList.update cur v sc = sc @ [(cur, v)]" by (rule update_fresh)
  then show ?thesis using c m by (simp add: numbered_def)
qed

lemma numbered_chunk_step: "numbered st \<Longrightarrow> numbered (chunk_step ps pps i st)"
  by (cases st) (simp add: chunk_step_def Let_def numbered_add)

lemma numbered_title_step: "numbered st \<Longrightarrow> numbered (title_step ps tis i st)"
  by (cases st) (simp add: title_step_def Let_def numbered_add)

lemma numbered_fold:
  assumes "\<And>i st. numbered st \<Longrightarrow> numbered (f i st)" "numbered st"
  shows "numbered (fold f xs st)"
  using assms(2) by (induction xs arbitrary: st) (simp_all add: assms(1))

lemma numbered_init: "numbered (1, [])"
  by (simp add: numbered_def)

lemma restrict_keys_fst:
  assumes "set keys \<subseteq> fst ` set d"
  shows "map fst (restrict_keys d keys) = keys"
  using assms
proof (induction keys)
  case Nil
  then show ?case by (simp add: restrict_keys_def)
next
  case (Cons k keys)
  then have "k \<in> fst ` set d" by simp
  then have "map_of d k \<noteq> None" by (simp add: map_of_eq_None_iff)
  then obtain v where "map_of d k = Some v" by auto
  with Cons show ?case by (simp add: restrict_keys_def)
qed


lemma py_slice_prefix: "0 \<le> m \<Longrightarrow> py_slice xs 0 m = take (nat m) xs"
  by (cases "nat m \<le> length xs") (simp_all add: py_slice_def py_bound_def min_def)

lemma organize_numbered:
  "\<exists>st. numbered st \<and>
     organize_text_into_slides paragraphs max_slides =
       (if max_slides < int (length (snd st))
        then restrict_keys (snd st) (py_slice (sort (map fst (snd st))) 0 max_slides)
        else snd st)"
proof (cases "uses_chunks (find_title_indices (prepare_paragraphs paragraphs max_slides) max_slides)")
  case True
  let ?ps = "prepare_paragraphs paragraphs max_slides"
  let ?pps = "nat (max 1 (min 8 (int (length ?ps) div max 1 (min max_slides 15))))"
  let ?st = "fold (chunk_step ?ps ?pps) (range_step (length ?ps) ?pps) (1, [])"
  have "numbered ?st" by (intro numbered_fold numbered_chunk_step numbered_init)
  moreover have "organize_text_into_slides paragraphs max_slides =
       (if max_slides < int (length (snd ?st))
        then restrict_keys (snd ?st) (py_slice (sort (map fst (snd ?st))) 0 max_slides)
        else snd ?st)"
    using True by (simp only: organize_text_into_slides_def Let_def if_True)
  ultimately show ?thesis by blast
next
  case False
  let ?ps = "prepare_paragraphs paragraphs max_slides"
  let ?tis = "find_title_indices ?ps max_slides"
  let ?st = "fold (title_step ?ps ?tis) [0 ..< length ?tis] (1, [])"
  have "numbered ?st" by (intro numbered_fold numbered_title_step numbered_init)
  moreover have "organize_text_into_slides paragraphs max_slides =
       (if max_slides < int (length (snd ?st))
        then restrict_keys (snd ?st) (py_slice (sort (map fst (snd ?st))) 0 max_slides)
        else snd ?st)"
    using False by (simp only: organize_text_into_slides_def Let_def if_False)
  ultimately show ?thesis by blast
qed

text \<open>
  Claim C3.  For every list of fragments and every \<open>max_slides \<ge> 1\<close>, the slide
  numbers of the groups that \<open>organize_text_into_slides\<close> returns are, in order,
  \<open>1, 2, \<dots>, K\<close> for some \<open>K \<le> max_slides\<close>: a dense range without gaps or
  duplicates.
\<close>

theorem segmenter_dense_numbers:
  assumes "1 \<le> max_slides"
  shows "\<exists>K. int K \<le> max_slides \<and>
           map fst (organize_text_into_slides paragraphs max_slides) = [1 ..< K + 1]"
proof -
  from organize_numbered obtain st where n: "numbered st" and
    o: "organize_text_into_slides paragraphs max_slides =
       (if max_slides < int (length (snd st))
        then restrict_keys (snd st) (py_slice (sort (map fst (snd st))) 0 max_slides)
        else snd st)" by blast
  obtain cur sc where st: "st = (cur, sc)" by (cases st)
  from n st have c: "1 \<le> cur" and m: "map fst sc = [1 ..< cur]" by (simp_all add: numbered_def)
  have len: "length sc = cur - 1" using arg_cong[OF m, of length] by simp
  show ?thesis
  proof (cases "max_slides < int (length sc)")
    case True
    define K where "K = nat max_slides"
    have K: "K < cur - 1" "int K = max_slides" using True assms len by (simp_all add: K_def)
    have keys: "py_slice (sort (map fst sc)) 0 max_slides = [1 ..< K + 1]"
    proof -
      have "py_slice (sort (map fst sc)) 0 max_slides = take K [1 ..< cur]"
        using assms by (simp add: m py_slice_prefix K_def)
      also have "\<dots> = [1 ..< K + 1]" using K(1) by simp
      finally show ?thesis .
    qed
    have "set [1 ..< K + 1] \<subseteq> set (map fst sc)" unfolding m using K(1) by auto
    then have "set [1 ..< K + 1] \<subseteq> fst ` set sc" by simp
    then have "map fst (restrict_keys sc [1 ..< K + 1]) = [1 ..< K + 1]"
      by (rule restrict_keys_fst)
    then have "map fst (organize_text_into_slides paragraphs max_slides) = [1 ..< K + 1]"
      using True by (simp only: o st snd_conv keys if_True)
    with K(2) show ?thesis by auto
  next
    case False
    then have "map fst (organize_text_into_slides paragraphs max_slides) = [1 ..< (cur - 1) + 1]"
      using c by (simp add: o st m)
    moreover have "int (cur - 1) \<le> max_slides" using False len by simp
    ultimately show ?thesis by blast
  qed
qed


theorem segmenter_dense_numbers_witness:
  "(1::int) \<le> 10 \<and> (\<exists>K. int K \<le> 10 \<and>
      map fst (organize_text_into_slides [''Hello world'', ''Second paragraph''] 10) = [1 ..< K + 1])"
proof
  show h: "(1::int) \<le> 10" by simp
  show "\<exists>K. int K \<le> 10 \<and>
      map fst (organize_text_into_slides [''Hello world'', ''Second paragraph''] 10) = [1 ..< K + 1]"
    by (rule segmenter_dense_numbers[OF h])
qed

section \<open>The segmenter: empty bodies and the text-file scenario\<close>















lemma text_file_paragraphs:
  "load_extracted_text_file
     ''Overview:\<newline>Intro line.\<newline>\<newline>Details:\<newline>More text here that is long enough.''
   = [''Overview:\<newline>Intro line.'', ''Details:\<newline>More text here that is long enough.'']"
  by code_simp

text \<open>
  Claim C5, as amended.  The text \<open>Overview:\<close>, newline, \<open>Intro line.\<close>, blank line,
  \<open>Details:\<close>, newline, \<open>More text here that is long enough.\<close>, loaded by
  \<open>load_extracted_text_file\<close> and segmented with \<open>max_slides = 10\<close>, yields exactly
  two slide groups.  The text is split at blank lines only, so each paragraph keeps its
  inner newline; the first group has the whole first paragraph as its title and an
  empty body, the second the whole second paragraph as its title and an empty body.
\<close>

theorem text_file_scenario:
  "organize_text_into_slides
     (load_extracted_text_file
        ''Overview:\<newline>Intro line.\<newline>\<newline>Details:\<newline>More text here that is long enough.'') 10
   = [(1, \<lparr>title = ''Overview:\<newline>Intro line.'', content = [], images = []\<rparr>),
      (2, \<lparr>title = ''Details:\<newline>More text here that is long enough.'', content = [],
          images = []\<rparr>)]"
  by code_simp

theorem text_file_scenario_counterexample:
  "organize_text_into_slides
     (load_extracted_text_file
        ''Overview:\<newline>Intro line.\<newline>\<newline>Details:\<newline>More text here that is long enough.'') 10
   \<noteq> [(1, \<lparr>title = ''Overview:'', content = [''Intro line.''], images = []\<rparr>),
       (2, \<lparr>title = ''Details:'', content = [''More text here that is long enough.''],
           images = []\<rparr>)]"
  by code_simp

section \<open>No slides: the division by zero in distribute\_images\<close>

lemma distribute_no_slides:
  assumes "0 < image_count"
  shows "distribute_images [] image_count = Inl ZeroDivisionError"
proof -
  from assms have "[0 ..< image_count] = 0 # [1 ..< image_count]" by (simp add: upt_conv_Cons)
  then show ?thesis by (simp add: distribute_images_def distribute_step_def)
qed

lemma distribute_no_images: "distribute_images sc 0 = Inr sc"
  by (simp add: distribute_images_def)

text \<open>
  Claim C10.  When the segmenter returns no slide group, \<open>distribute_images\<close> is
  called on the empty dictionary before \<open>main\<close> tests \<open>total_slides == 0\<close>.  With
  at least one carved image it computes \<open>i % 0\<close> and raises
  \<open>ZeroDivisionError\<close>, which nothing catches: \<open>main\<close> ends with that exception.
  The report of an empty result, \<open>return 1\<close>, is reached only when the image count
  is zero as well.
\<close>

theorem zero_slides_crash:
  assumes "organize_text_into_slides text_paragraphs (min 100 (arg_max_slides a)) = []"
  shows "(0 < image_count \<longrightarrow>
            distribute_images [] image_count = Inl ZeroDivisionError \<and>
            fst (main env a media_store image_count text_paragraphs) = Raised ZeroDivisionError) \<and>
         (image_count = 0 \<longrightarrow>
            fst (main env a media_store image_count text_paragraphs) = Returned 1)"
proof (intro conjI impI)
  assume p: "0 < image_count"
  show "distribute_images [] image_count = Inl ZeroDivisionError"
    using p by (rule distribute_no_slides)
  show "fst (main env a media_store image_count text_paragraphs) = Raised ZeroDivisionError"
    using assms distribute_no_slides[OF p] by (simp add: main_def main_try_def)
next
  assume "image_count = 0"
  then show "fst (main env a media_store image_count text_paragraphs) = Returned 1"
    using assms by (simp add: main_def main_try_def distribute_no_images)
qed

lemma no_paragraphs: "organize_text_into_slides [] 100 = []"
  by code_simp

theorem zero_slides_crash_witness:
  "organize_text_into_slides []
      (min 100 (arg_max_slides \<lparr>arg_max_slides = 100, arg_slides_per_file = 15,
                                  arg_max_files = 10, arg_extract_dir = None\<rparr>)) = []
   \<and> distribute_images [] 1 = Inl ZeroDivisionError
   \<and> fst (main \<lparr>build_raises = (\<lambda>n. False), save_raises = (\<lambda>f. False),
             zip_raises = (\<lambda>n. False)\<rparr>
            \<lparr>arg_max_slides = 100, arg_slides_per_file = 15, arg_max_files = 10,
             arg_extract_dir = None\<rparr> Map.empty 1 []) = Raised ZeroDivisionError
   \<and> fst (main \<lparr>build_raises = (\<lambda>n. False), save_raises = (\<lambda>f. False),
             zip_raises = (\<lambda>n. False)\<rparr>
            \<lparr>arg_max_slides = 100, arg_slides_per_file = 15, arg_max_files = 10,
             arg_extract_dir = None\<rparr> Map.empty 0 []) = Returned 1"
proof -
  let ?a = "\<lparr>arg_max_slides = 100, arg_slides_per_file = 15, arg_max_files = 10,
             arg_extract_dir = None\<rparr>"
  let ?env = "\<lparr>build_raises = (\<lambda>n. False), save_raises = (\<lambda>f. False),
             zip_raises = (\<lambda>n. False)\<rparr>"
  have h: "organize_text_into_slides [] (min 100 (arg_max_slides ?a)) = []"
    by (simp add: no_paragraphs)
  from zero_slides_crash[OF h, of 1 ?env Map.empty] zero_slides_crash[OF h, of 0 ?env Map.empty] h
  show ?thesis by simp
qed

section \<open>distribute\_images: round robin\<close>

lemma append_image_keys: "map fst (append_image k f sc) = map fst sc"
  by (induction sc) (auto simp: append_image_def)

lemma map_of_append_image:
  "map_of (append_image k f sc) k' =
     (if k' = k then map_option (\<lambda>g. g\<lparr>images := images g @ [f]\<rparr>) (map_of sc k')
      else map_of sc k')"
  by (induction sc) (auto simp: append_image_def)

lemma distribute_loop_fold:
  assumes "sn \<noteq> []"
  shows "distribute_loop sn is sc =
           Inr (fold (\<lambda>i. append_image (sn ! (i mod length sn)) (''image_'' @ str (i + 1) @ ''.png''))
                  is sc)"
  using assms by (induction "is" arbitrary: sc) (simp_all add: distribute_step_def)

lemma fold_append_image_keys:
  "map fst (fold (\<lambda>i. append_image (h i) (nm i)) is sc) = map fst sc"
  by (induction "is" arbitrary: sc) (simp_all add: append_image_keys)

lemma map_of_fold_append_image:
  "map_of (fold (\<lambda>i. append_image (h i) (nm i)) is sc) k =
     map_option (\<lambda>g. g\<lparr>images := images g @ map nm (filter (\<lambda>i. h i = k) is)\<rparr>) (map_of sc k)"
proof (induction "is" arbitrary: sc)
  case Nil
  show ?case by (cases "map_of sc k") simp_all
next
  case (Cons i "is")
  show ?case
    by (cases "map_of sc k") (auto simp: Cons map_of_append_image)
qed


text \<open>
  Claim C9, as amended.  For every dictionary of slide groups that is not empty (its keys
  distinct, as those of a dictionary are) and every image count \<open>c\<close>,
  \<open>distribute_images\<close> succeeds and keeps the keys.  The loop index
  \<open>i = 0, \<dots>, c - 1\<close> carries image number \<open>i + 1\<close>: the slide at index
  \<open>j\<close> of the sorted slide numbers gets, appended to its images in order, the names
  \<open>image_<i+1>.png\<close> of the indices \<open>i\<close> with \<open>i mod slideCount = j\<close>.  So image
  number \<open>m\<close> goes to the slide at index \<open>(m - 1) mod slideCount\<close>, not
  \<open>m mod slideCount\<close>; its name ends in \<open>.png\<close> whatever was carved, since the
  function only receives the count.
\<close>
theorem round_robin_images:
  assumes "slides_content \<noteq> []" "distinct (map fst slides_content)"
  shows "\<exists>result.
           distribute_images slides_content image_count = Inr result \<and>
           map fst result = map fst slides_content \<and>
           (\<forall>j < length slides_content.
              map_of result (sort (map fst slides_content) ! j) =
                map_option
                  (\<lambda>g. g\<lparr>images := images g @
                          map (\<lambda>i. ''image_'' @ str (i + 1) @ ''.png'')
                            (filter (\<lambda>i. i mod length slides_content = j) [0 ..< image_count])\<rparr>)
                  (map_of slides_content (sort (map fst slides_content) ! j)))"
proof -
  let ?sn = "sort (map fst slides_content)"
  let ?nm = "\<lambda>i. ''image_'' @ str (i + 1) @ ''.png''"
  let ?h = "\<lambda>i. ?sn ! (i mod length ?sn)"
  let ?result = "fold (\<lambda>i. append_image (?h i) (?nm i)) [0 ..< image_count] slides_content"
  have len: "length ?sn = length slides_content" by simp
  have ne: "?sn \<noteq> []"
  proof
    assume "?sn = []"
    then have "length ?sn = 0" by (simp only: list.size)
    with len assms(1) show False by simp
  qed
  have d: "distinct ?sn" using assms(2) by simp
  have r: "distribute_images slides_content image_count = Inr ?result"
    unfolding distribute_images_def Let_def by (rule distribute_loop_fold[OF ne])
  have k: "map fst ?result = map fst slides_content" by (rule fold_append_image_keys)
  have m: "map_of ?result (?sn ! j) =
             map_option (\<lambda>g. g\<lparr>images := images g @
                          map ?nm (filter (\<lambda>i. i mod length slides_content = j) [0 ..< image_count])\<rparr>)
               (map_of slides_content (?sn ! j))"
    if j: "j < length slides_content" for j
  proof -
    have "(?h i = ?sn ! j) = (i mod length slides_content = j)" for i
    proof -
      have "i mod length ?sn < length ?sn" using assms(1) by simp
      with d j len have "(?sn ! (i mod length ?sn) = ?sn ! j) = (i mod length ?sn = j)"
        by (simp only: nth_eq_iff_index_eq)
      then show ?thesis by (simp only: len)
    qed
    then have "filter (\<lambda>i. ?h i = ?sn ! j) [0 ..< image_count]
             = filter (\<lambda>i. i mod length slides_content = j) [0 ..< image_count]"
      by simp
    then show ?thesis by (simp only: map_of_fold_append_image)
  qed
  show ?thesis
  proof (intro exI conjI allI impI)
    show "distribute_images slides_content image_count = Inr ?result" by (rule r)
    show "map fst ?result = map fst slides_content" by (rule k)
  next
    fix j assume "j < length slides_content"
    then show "map_of ?result (?sn ! j) =
             map_option (\<lambda>g. g\<lparr>images := images g @
                          map ?nm (filter (\<lambda>i. i mod length slides_content = j) [0 ..< image_count])\<rparr>)
               (map_of slides_content (?sn ! j))" by (rule m)
  qed
qed


theorem round_robin_images_witness:
  "[(1::nat, \<lparr>title = ''A'', content = [''b''], images = []\<rparr>),
    (2, \<lparr>title = ''C'', content = [''d''], images = []\<rparr>)] \<noteq> []
   \<and> distinct (map fst [(1::nat, \<lparr>title = ''A'', content = [''b''], images = []\<rparr>),
                         (2, \<lparr>title = ''C'', content = [''d''], images = []\<rparr>)])
   \<and> (\<exists>result.
         distribute_images [(1, \<lparr>title = ''A'', content = [''b''], images = []\<rparr>),
                            (2, \<lparr>title = ''C'', content = [''d''], images = []\<rparr>)] 3 = Inr result
         \<and> map fst result = [1, 2])"
proof -
  let ?sc = "[(1::nat, \<lparr>title = ''A'', content = [''b''], images = []\<rparr>),
              (2, \<lparr>title = ''C'', content = [''d''], images = []\<rparr>)]"
  have h1: "?sc \<noteq> []" by simp
  have h2: "distinct (map fst ?sc)" by simp
  from round_robin_images[OF h1 h2, of 3] obtain result where
    "distribute_images ?sc 3 = Inr result" "map fst result = map fst ?sc" by blast
  then have "\<exists>result. distribute_images ?sc 3 = Inr result \<and> map fst result = [1, 2]" by simp
  with h1 h2 show ?thesis by blast
qed

theorem round_robin_images_counterexample:
  "distribute_images [(1, \<lparr>title = ''A'', content = [''b''], images = []\<rparr>),
                      (2, \<lparr>title = ''C'', content = [''d''], images = []\<rparr>)] 1
     = Inr [(1, \<lparr>title = ''A'', content = [''b''], images = [''image_1.png'']\<rparr>),
            (2, \<lparr>title = ''C'', content = [''d''], images = []\<rparr>)]
   \<and> sort [1, 2 :: nat] ! (1 mod 2) = 2"
  by code_simp

section \<open>create\_placeholder\_slide: escaping and truncation\<close>

lemma slide_part_texts:
  "sld_title (fst (create_placeholder_slide n t cs imgs)) = sanitize_title t"
  "map sp_text (sld_texts (fst (create_placeholder_slide n t cs imgs)))
     = map sanitize_text (take 8 cs)"
proof -
  show "sld_title (fst (create_placeholder_slide n t cs imgs)) = sanitize_title t"
    by (simp add: create_placeholder_slide_def Let_def)
  have "map sp_text (sld_texts (fst (create_placeholder_slide n t cs imgs)))
      = map (\<lambda>p. sanitize_text (snd p)) (enumerate 0 (take (min 8 (length cs)) cs))"
    by (simp add: create_placeholder_slide_def Let_def case_prod_unfold comp_def)
  also have "\<dots> = map sanitize_text (map snd (enumerate 0 (take (min 8 (length cs)) cs)))"
    by (simp only: map_map comp_def)
  also have "\<dots> = map sanitize_text (take (min 8 (length cs)) cs)"
    by (simp only: map_snd_enumerate)
  also have "\<dots> = map sanitize_text (take 8 cs)"
    by (simp add: min_def)
  finally show "map sp_text (sld_texts (fst (create_placeholder_slide n t cs imgs)))
     = map sanitize_text (take 8 cs)" .
qed

lemma escape_two_ampersands:
  "escape_xml (replicate 96 (CHR ''a'') @ ''&&'') = replicate 96 (CHR ''a'') @ ''&amp;&amp;''"
  by code_simp

lemma sanitize_title_cut:
  "sanitize_title (replicate 96 (CHR ''a'') @ ''&&'') = replicate 96 (CHR ''a'') @ ''&...''"
  by code_simp

text \<open>
  Claim C7.  The code escapes first and tests the length of the escaped text afterwards,
  then cuts the escaped text.  The title of 96 letters \<open>a\<close> followed by \<open>&&\<close> has
  98 characters, within the limit of 100.  Its escaped text has 106 characters, so the
  title is cut all the same, and the cut at 97 falls inside the first \<open>&amp;\<close>: the
  title run of the slide part is the 96 letters, a bare \<open>&\<close> and \<open>...\<close>.  The
  character \<open>&\<close> is embedded unescaped, in a title that the claim says is embedded
  unshortened.
\<close>

theorem cut_splits_escape:
  "length (replicate 96 (CHR ''a'') @ ''&&'') = 98
   \<and> escape_xml (replicate 96 (CHR ''a'') @ ''&&'') = replicate 96 (CHR ''a'') @ ''&amp;&amp;''
   \<and> sld_title (fst (create_placeholder_slide 1 (replicate 96 (CHR ''a'') @ ''&&'') [] []))
       = replicate 96 (CHR ''a'') @ ''&...''"
  by (simp only: slide_part_texts sanitize_title_cut escape_two_ampersands) simp

section \<open>create\_pptx\_structure: relationships and media files\<close>


lemma rid_names: "map (\<lambda>i. ''rId'' @ str (i + 1)) [0 ..< 4] = [''rId1'', ''rId2'', ''rId3'', ''rId4'']"
  by code_simp

lemma rid_distinct:
  assumes "K \<le> 4"
  shows "distinct (map (\<lambda>i. ''rId'' @ str (i + 1)) [0 ..< K])"
proof -
  have "map (\<lambda>i. ''rId'' @ str (i + 1)) [0 ..< K] = take K (map (\<lambda>i. ''rId'' @ str (i + 1)) [0 ..< 4])"
    using assms by (simp add: take_map)
  also have "\<dots> = take K [''rId1'', ''rId2'', ''rId3'', ''rId4'']" by (simp only: rid_names)
  finally show ?thesis by (simp add: distinct_take)
qed

lemma map_fst_enumerate0: "map fst (enumerate 0 xs) = [0 ..< length xs]"
  by (simp add: enumerate_eq_zip)

lemma cps_pic_ids:
  "map blip_embed (sld_pics (fst (create_placeholder_slide n t cs imgs)))
     = map (\<lambda>i. ''rId'' @ str (i + 1)) [0 ..< min 4 (length imgs)]"
proof -
  have "map blip_embed (sld_pics (fst (create_placeholder_slide n t cs imgs)))
      = map (\<lambda>p. ''rId'' @ str (fst p + 1)) (enumerate 0 (take (min 4 (length imgs)) imgs))"
    by (simp add: create_placeholder_slide_def Let_def case_prod_unfold comp_def)
  also have "\<dots> = map (\<lambda>i. ''rId'' @ str (i + 1))
                      (map fst (enumerate 0 (take (min 4 (length imgs)) imgs)))"
    by (simp only: map_map comp_def)
  also have "\<dots> = map (\<lambda>i. ''rId'' @ str (i + 1)) [0 ..< min 4 (length imgs)]"
    by (simp only: map_fst_enumerate0) simp
  finally show ?thesis .
qed

lemma cps_rel_ids:
  "map rel_id (snd (create_placeholder_slide n t cs imgs))
     = map (\<lambda>i. ''rId'' @ str (i + 1)) [0 ..< min 4 (length imgs)]"
proof -
  have "map rel_id (snd (create_placeholder_slide n t cs imgs))
      = map (\<lambda>p. ''rId'' @ str (fst p + 1)) (enumerate 0 (take (min 4 (length imgs)) imgs))"
    by (simp add: create_placeholder_slide_def Let_def case_prod_unfold comp_def)
  also have "\<dots> = map (\<lambda>i. ''rId'' @ str (i + 1))
                      (map fst (enumerate 0 (take (min 4 (length imgs)) imgs)))"
    by (simp only: map_map comp_def)
  also have "\<dots> = map (\<lambda>i. ''rId'' @ str (i + 1)) [0 ..< min 4 (length imgs)]"
    by (simp only: map_fst_enumerate0) simp
  finally show ?thesis .
qed

lemma cps_rel_targets:
  "map rel_target (snd (create_placeholder_slide n t cs imgs))
     = map (\<lambda>img. ''../media/'' @ img) (take 4 imgs)"
proof -
  have "map rel_target (snd (create_placeholder_slide n t cs imgs))
      = map (\<lambda>p. ''../media/'' @ snd p) (enumerate 0 (take (min 4 (length imgs)) imgs))"
    by (simp add: create_placeholder_slide_def Let_def case_prod_unfold comp_def)
  also have "\<dots> = map (\<lambda>img. ''../media/'' @ img)
                      (map snd (enumerate 0 (take (min 4 (length imgs)) imgs)))"
    by (simp only: map_map comp_def)
  also have "\<dots> = map (\<lambda>img. ''../media/'' @ img) (take (min 4 (length imgs)) imgs)"
    by (simp only: map_snd_enumerate)
  also have "\<dots> = map (\<lambda>img. ''../media/'' @ img) (take 4 imgs)"
    by (simp add: min_def)
  finally show ?thesis .
qed

lemma one_entry:
  assumes "distinct (map f xs)" "r \<in> set (map f xs)"
  shows "length (filter (\<lambda>x. f x = r) xs) = 1"
  using assms
proof (induction xs)
  case Nil
  then show ?case by simp
next
  case (Cons x xs)
  show ?case
  proof (cases "f x = r")
    case True
    then have "r \<notin> set (map f xs)" using Cons.prems(1) by auto
    then have "filter (\<lambda>x. f x = r) xs = []" by (auto simp: filter_empty_conv)
    with True show ?thesis by simp
  next
    case False
    then have "r \<in> set (map f xs)" using Cons.prems(2) by auto
    with Cons False show ?thesis by simp
  qed
qed

lemma cps_one_relationship:
  assumes "pic \<in> set (sld_pics (fst (create_placeholder_slide n t cs imgs)))"
  shows "length (filter (\<lambda>r. rel_id r = blip_embed pic)
                   (snd (create_placeholder_slide n t cs imgs))) = 1"
proof (rule one_entry)
  show "distinct (map rel_id (snd (create_placeholder_slide n t cs imgs)))"
    unfolding cps_rel_ids by (rule rid_distinct) simp
  have "blip_embed pic \<in> set (map blip_embed (sld_pics (fst (create_placeholder_slide n t cs imgs))))"
    using assms by simp
  then show "blip_embed pic \<in> set (map rel_id (snd (create_placeholder_slide n t cs imgs)))"
    by (simp only: cps_pic_ids cps_rel_ids)
qed

lemma copy_images_Inr:
  assumes "copy_images env media_store fs m = Inr m'"
  shows "m' f = (if f \<in> set fs
                 then Some (case media_store f of Some bytes \<Rightarrow> Copied bytes
                            | None \<Rightarrow> Placeholder f)
                 else m f)"
  using assms
proof (induction fs arbitrary: m)
  case Nil
  then show ?case by simp
next
  case (Cons x fs)
  from Cons.prems obtain m1 where c: "copy_image env media_store x m = Inr m1"
    and r: "copy_images env media_store fs m1 = Inr m'"
    by (auto split: sum.splits)
  from c have m1: "m1 = m(x \<mapsto> (case media_store x of Some bytes \<Rightarrow> Copied bytes
                                   | None \<Rightarrow> Placeholder x))"
    by (auto simp: copy_image_def create_placeholder_image_def split: option.splits sum.splits if_splits)
  from Cons.IH[OF r] show ?case by (auto simp: m1)
qed

lemma copy_images_succeeds:
  assumes "\<forall>f \<in> set fs. media_store f = None \<longrightarrow> \<not> save_raises env f"
  shows "\<exists>m'. copy_images env media_store fs m = Inr m'"
  using assms
proof (induction fs arbitrary: m)
  case Nil
  then show ?case by simp
next
  case (Cons x fs)
  then have "\<exists>m1. copy_image env media_store x m = Inr m1"
    by (cases "media_store x") (simp_all add: copy_image_def create_placeholder_image_def)
  then obtain m1 where c: "copy_image env media_store x m = Inr m1" by blast
  from Cons have "\<exists>m'. copy_images env media_store fs m1 = Inr m'" by simp
  with c show ?case by simp
qed


lemma map_of_filter_keys:
  assumes "P k"
  shows "map_of (filter (\<lambda>(num, s). P num) xs) k = map_of xs k"
  using assms by (induction xs) auto

lemma concat_snd_mem:
  "(f \<in> set (concat (map (\<lambda>(i, y). g y) xs))) = (\<exists>y \<in> set (map snd xs). f \<in> set (g y))"
  by (induction xs) auto

lemma structure_Inr:
  assumes "create_pptx_structure env media_store slides_content part_num start_slide end_slide = Inr pkg"
  defines "current_slides \<equiv> filter (\<lambda>(num, s). num \<in> set [start_slide ..< end_slide + 1]) slides_content"
  shows "\<not> build_raises env part_num"
    and "pkg_slides pkg =
           map (\<lambda>(i, slide_num).
                  (''slide'' @ str (i + 1) @ ''.xml'',
                   create_placeholder_slide slide_num (title (slide_entry current_slides slide_num))
                     (content (slide_entry current_slides slide_num))
                     (images (slide_entry current_slides slide_num))))
             (enumerate 0 [start_slide ..< end_slide + 1])"
    and "pkg_media pkg f =
           (if \<exists>slide_num \<in> set [start_slide ..< end_slide + 1].
                 f \<in> set (images (slide_entry current_slides slide_num))
            then Some (case media_store f of Some bytes \<Rightarrow> Copied bytes | None \<Rightarrow> Placeholder f)
            else None)"
proof -
  let ?range = "enumerate 0 [start_slide ..< end_slide + 1]"
  let ?used = "concat (map (\<lambda>(i, slide_num). images (slide_entry current_slides slide_num)) ?range)"
  show nb: "\<not> build_raises env part_num"
    using assms(1) by (auto simp: create_pptx_structure_def split: if_splits)
  from assms(1) nb obtain media where
    c: "copy_images env media_store (remdups ?used) Map.empty = Inr media"
    and p: "pkg_slides pkg =
           map (\<lambda>(i, slide_num).
                  let slide_data = slide_entry current_slides slide_num;
                      (slide_xml, slide_rels_xml) =
                        create_placeholder_slide slide_num (title slide_data)
                          (content slide_data) (images slide_data)
                  in (''slide'' @ str (i + 1) @ ''.xml'', slide_xml, slide_rels_xml)) ?range"
    and m: "pkg_media pkg = media"
    unfolding create_pptx_structure_def current_slides_def Let_def
    by (auto split: sum.splits)
  show "pkg_slides pkg =
           map (\<lambda>(i, slide_num).
                  (''slide'' @ str (i + 1) @ ''.xml'',
                   create_placeholder_slide slide_num (title (slide_entry current_slides slide_num))
                     (content (slide_entry current_slides slide_num))
                     (images (slide_entry current_slides slide_num))))
             ?range"
    unfolding p by (simp add: Let_def case_prod_unfold)
  have u: "(f \<in> set (remdups ?used)) =
           (\<exists>slide_num \<in> set [start_slide ..< end_slide + 1].
                 f \<in> set (images (slide_entry current_slides slide_num)))"
  proof -
    have "(f \<in> set ?used) =
            (\<exists>slide_num \<in> set (map snd ?range).
               f \<in> set (images (slide_entry current_slides slide_num)))"
      by (rule concat_snd_mem)
    then show ?thesis by (simp only: set_remdups map_snd_enumerate)
  qed
  show "pkg_media pkg f =
           (if \<exists>slide_num \<in> set [start_slide ..< end_slide + 1].
                 f \<in> set (images (slide_entry current_slides slide_num))
            then Some (case media_store f of Some bytes \<Rightarrow> Copied bytes | None \<Rightarrow> Placeholder f)
            else None)"
    unfolding m copy_images_Inr[OF c, of f] u by simp
qed

lemma structure_succeeds:
  assumes "\<not> build_raises env part_num" "\<forall>f. media_store f = None \<longrightarrow> \<not> save_raises env f"
  shows "\<exists>pkg. create_pptx_structure env media_store slides_content part_num start_slide end_slide
           = Inr pkg"
proof -
  let ?cs = "filter (\<lambda>(num, s). num \<in> set [start_slide ..< end_slide + 1]) slides_content"
  let ?used = "concat (map (\<lambda>(i, slide_num). images (slide_entry ?cs slide_num))
                         (enumerate 0 [start_slide ..< end_slide + 1]))"
  from assms(2) have "\<forall>f \<in> set (remdups ?used). media_store f = None \<longrightarrow> \<not> save_raises env f"
    by blast
  from copy_images_succeeds[OF this] obtain media where
    "copy_images env media_store (remdups ?used) Map.empty = Inr media" by blast
  then show ?thesis using assms(1) by (simp add: create_pptx_structure_def Let_def)
qed

lemma structure_slide_count:
  assumes "create_pptx_structure env media_store slides_content part_num start_slide end_slide = Inr pkg"
  shows "length (pkg_slides pkg) = end_slide + 1 - start_slide"
  unfolding structure_Inr(2)[OF assms] by (simp only: length_map length_enumerate length_upt)


lemma range_mem: "(n \<in> set [s ..< e + 1]) = (s \<le> n \<and> n \<le> (e::nat))"
  by (simp only: set_upt atLeastLessThan_iff) arith

lemma in_map_enumerate:
  assumes "x \<in> set (map (\<lambda>(i, y). h i y) (enumerate 0 ys))"
  shows "\<exists>i y. y \<in> set ys \<and> x = h i y"
proof -
  from assms obtain a where "a < length ys" "x = h a (ys ! a)"
    by (auto simp: in_set_enumerate_eq)
  moreover from this have "ys ! a \<in> set ys" by simp
  ultimately show ?thesis by blast
qed

lemma slide_entry_filter:
  assumes "start_slide \<le> n" "n \<le> end_slide"
  shows "slide_entry (filter (\<lambda>(num, s). num \<in> set [start_slide ..< end_slide + 1]) sc) n
           = slide_entry sc n"
proof -
  have "n \<in> set [start_slide ..< end_slide + 1]" using assms by (simp only: range_mem)
  then show ?thesis by (simp only: slide_entry_def map_of_filter_keys)
qed

lemma slide_entry_images:
  assumes "f \<in> set (images (slide_entry sc n))"
  shows "\<exists>g. map_of sc n = Some g \<and> f \<in> set (images g)"
  using assms by (cases "map_of sc n") (simp_all add: slide_entry_def)

text \<open>
  Claim C1.  \<open>create_pptx_structure\<close> returns a package whenever no write raises: the
  directories and parts can be written and, for every image of a slide of the range that
  the media store does not hold, the placeholder can be saved.  In every package it
  returns, each picture of a slide part embeds a relationship id that exactly one
  relationship of the same slide has, every relationship of a slide targets
  \<open>../media/f\<close> for a file \<open>f\<close> of the media directory of the package, and every image
  \<open>f\<close> of a slide of the range is a file of that directory: the copy of the bytes that
  the media store holds under \<open>f\<close>, and the placeholder drawn for \<open>f\<close> when the store
  holds nothing under that name.
\<close>

theorem package_images_resolve:
  "(\<not> build_raises env part_num
      \<and> (\<forall>n g f. start_slide \<le> n \<and> n \<le> end_slide \<and> map_of slides_content n = Some g
                  \<and> f \<in> set (images g) \<and> media_store f = None \<longrightarrow> \<not> save_raises env f)
      \<longrightarrow> (\<exists>pkg. create_pptx_structure env media_store slides_content part_num
                     start_slide end_slide = Inr pkg))
   \<and> (\<forall>pkg. create_pptx_structure env media_store slides_content part_num
               start_slide end_slide = Inr pkg \<longrightarrow>
         (\<forall>(name, part, rels) \<in> set (pkg_slides pkg).
            (\<forall>pic \<in> set (sld_pics part).
               length (filter (\<lambda>r. rel_id r = blip_embed pic) rels) = 1)
            \<and> (\<forall>r \<in> set rels. \<exists>f. rel_target r = ''../media/'' @ f
                                     \<and> pkg_media pkg f \<noteq> None))
         \<and> (\<forall>n g f. start_slide \<le> n \<and> n \<le> end_slide \<and> map_of slides_content n = Some g
                     \<and> f \<in> set (images g) \<longrightarrow>
               pkg_media pkg f =
                 Some (case media_store f of Some bytes \<Rightarrow> Copied bytes
                       | None \<Rightarrow> Placeholder f)))"
proof (intro conjI impI allI)
  let ?cs = "filter (\<lambda>(num, s). num \<in> set [start_slide ..< end_slide + 1]) slides_content"
  let ?used = "concat (map (\<lambda>(i, slide_num). images (slide_entry ?cs slide_num))
                         (enumerate 0 [start_slide ..< end_slide + 1]))"
  assume a: "\<not> build_raises env part_num
      \<and> (\<forall>n g f. start_slide \<le> n \<and> n \<le> end_slide \<and> map_of slides_content n = Some g
                  \<and> f \<in> set (images g) \<and> media_store f = None \<longrightarrow> \<not> save_raises env f)"
  have "\<forall>f \<in> set (remdups ?used). media_store f = None \<longrightarrow> \<not> save_raises env f"
  proof (intro ballI impI)
    fix f assume f: "f \<in> set (remdups ?used)" and n: "media_store f = None"
    from f have "\<exists>y \<in> set (map snd (enumerate 0 [start_slide ..< end_slide + 1])).
                    f \<in> set (images (slide_entry ?cs y))"
      by (simp only: set_remdups concat_snd_mem)
    then obtain y where y: "y \<in> set [start_slide ..< end_slide + 1]"
      and fy: "f \<in> set (images (slide_entry ?cs y))"
      by (auto simp only: map_snd_enumerate)
    from y have r: "start_slide \<le> y" "y \<le> end_slide" by (simp_all only: range_mem)
    from fy have "f \<in> set (images (slide_entry slides_content y))"
      by (simp only: slide_entry_filter[OF r])
    from slide_entry_images[OF this] obtain g where
      "map_of slides_content y = Some g" "f \<in> set (images g)" by blast
    with a r n show "\<not> save_raises env f" by blast
  qed
  from copy_images_succeeds[OF this] obtain media where
    "copy_images env media_store (remdups ?used) Map.empty = Inr media" by blast
  with a show "\<exists>pkg. create_pptx_structure env media_store slides_content part_num
                     start_slide end_slide = Inr pkg"
    by (simp add: create_pptx_structure_def Let_def)
next
  fix pkg
  let ?cs = "filter (\<lambda>(num, s). num \<in> set [start_slide ..< end_slide + 1]) slides_content"
  assume c: "create_pptx_structure env media_store slides_content part_num
               start_slide end_slide = Inr pkg"
  note sl = structure_Inr(2)[OF c] and md = structure_Inr(3)[OF c]
  show "\<forall>(name, part, rels) \<in> set (pkg_slides pkg).
            (\<forall>pic \<in> set (sld_pics part).
               length (filter (\<lambda>r. rel_id r = blip_embed pic) rels) = 1)
            \<and> (\<forall>r \<in> set rels. \<exists>f. rel_target r = ''../media/'' @ f
                                     \<and> pkg_media pkg f \<noteq> None)"
  proof (intro ballI, clarify, intro conjI ballI)
    fix name part rels
    assume m: "(name, part, rels) \<in> set (pkg_slides pkg)"
    then have "\<exists>i n. n \<in> set [start_slide ..< end_slide + 1] \<and>
                 (name, part, rels) =
                   (''slide'' @ str (i + 1) @ ''.xml'',
                    create_placeholder_slide n (title (slide_entry ?cs n))
                      (content (slide_entry ?cs n)) (images (slide_entry ?cs n)))"
      unfolding sl by (rule in_map_enumerate)
    then obtain i n where n: "n \<in> set [start_slide ..< end_slide + 1]"
      and pr: "(part, rels) = create_placeholder_slide n (title (slide_entry ?cs n))
                 (content (slide_entry ?cs n)) (images (slide_entry ?cs n))"
      by blast
    from pr[symmetric] have part: "part = fst (create_placeholder_slide n (title (slide_entry ?cs n))
                 (content (slide_entry ?cs n)) (images (slide_entry ?cs n)))"
      and rels: "rels = snd (create_placeholder_slide n (title (slide_entry ?cs n))
                 (content (slide_entry ?cs n)) (images (slide_entry ?cs n)))"
      by (simp_all only: fst_conv snd_conv)
    {
      fix pic assume "pic \<in> set (sld_pics part)"
      then show "length (filter (\<lambda>r. rel_id r = blip_embed pic) rels) = 1"
        unfolding part rels by (rule cps_one_relationship)
    }
    {
      fix r assume "r \<in> set rels"
      then have "rel_target r \<in> set (map rel_target rels)" by simp
      then have "rel_target r \<in> set (map (\<lambda>img. ''../media/'' @ img)
                                          (take 4 (images (slide_entry ?cs n))))"
        unfolding rels by (simp only: cps_rel_targets)
      then obtain f where f: "f \<in> set (take 4 (images (slide_entry ?cs n)))"
        and t: "rel_target r = ''../media/'' @ f" by auto
      from f have "f \<in> set (images (slide_entry ?cs n))" by (rule in_set_takeD)
      with n have "pkg_media pkg f \<noteq> None" unfolding md by auto
      with t show "\<exists>f. rel_target r = ''../media/'' @ f \<and> pkg_media pkg f \<noteq> None" by blast
    }
  qed
next
  fix pkg n g f
  let ?cs = "filter (\<lambda>(num, s). num \<in> set [start_slide ..< end_slide + 1]) slides_content"
  assume c: "create_pptx_structure env media_store slides_content part_num
               start_slide end_slide = Inr pkg"
    and h: "start_slide \<le> n \<and> n \<le> end_slide \<and> map_of slides_content n = Some g
              \<and> f \<in> set (images g)"
  note md = structure_Inr(3)[OF c]
  from h have r: "start_slide \<le> n" "n \<le> end_slide" by simp_all
  from h have "slide_entry slides_content n = g" by (simp add: slide_entry_def)
  then have "slide_entry ?cs n = g" by (simp only: slide_entry_filter[OF r])
  with h have "f \<in> set (images (slide_entry ?cs n))" by simp
  moreover from r have "n \<in> set [start_slide ..< end_slide + 1]" by (simp only: range_mem)
  ultimately show "pkg_media pkg f =
                 Some (case media_store f of Some bytes \<Rightarrow> Copied bytes
                       | None \<Rightarrow> Placeholder f)"
    unfolding md by auto
qed

theorem package_images_resolve_witness:
  "\<exists>pkg. create_pptx_structure
            \<lparr>build_raises = (\<lambda>n. False), save_raises = (\<lambda>f. False), zip_raises = (\<lambda>n. False)\<rparr>
            [''image_1.png'' \<mapsto> [137, 80, 78, 71]]
            [(1, \<lparr>title = ''A'', content = [''b''], images = [''image_1.png'', ''image_2.png'']\<rparr>)]
            1 1 1 = Inr pkg
         \<and> pkg_media pkg ''image_1.png'' = Some (Copied [137, 80, 78, 71])
         \<and> pkg_media pkg ''image_2.png'' = Some (Placeholder ''image_2.png'')"
proof -
  let ?env = "\<lparr>build_raises = (\<lambda>n. False), save_raises = (\<lambda>f. False), zip_raises = (\<lambda>n. False)\<rparr>"
  let ?store = "[''image_1.png'' \<mapsto> [137, 80, 78, 71 :: byte]]"
  let ?sc = "[(1::nat, \<lparr>title = ''A'', content = [''b''],
                        images = [''image_1.png'', ''image_2.png'']\<rparr>)]"
  note t = package_images_resolve[of ?env 1 1 1 ?sc ?store]
  from t obtain pkg where p: "create_pptx_structure ?env ?store ?sc 1 1 1 = Inr pkg" by auto
  from t p have m: "\<forall>n g f. 1 \<le> n \<and> n \<le> 1 \<and> map_of ?sc n = Some g \<and> f \<in> set (images g) \<longrightarrow>
               pkg_media pkg f =
                 Some (case ?store f of Some bytes \<Rightarrow> Copied bytes | None \<Rightarrow> Placeholder f)"
    by blast
  from m[rule_format, of 1 _ "''image_1.png''"]
  have a: "pkg_media pkg ''image_1.png'' = Some (Copied [137, 80, 78, 71])" by simp
  from m[rule_format, of 1 _ "''image_2.png''"]
  have b: "pkg_media pkg ''image_2.png'' = Some (Placeholder ''image_2.png'')" by simp
  from p a b show ?thesis by blast
qed

section \<open>extract\_images\_from\_binary: the candidates of a scan\<close>

lemma find_sub_Some:
  assumes "find_sub sub xs = Some k"
  shows "k \<le> length xs \<and> take (length sub) (drop k xs) = sub
         \<and> (\<forall>j < k. take (length sub) (drop j xs) \<noteq> sub)"
  using assms
proof (induction xs arbitrary: k)
  case Nil
  then show ?case by (simp split: if_splits)
next
  case (Cons x xs)
  show ?case
  proof (cases "take (length sub) (x # xs) = sub")
    case True
    with Cons.prems show ?thesis by simp
  next
    case False
    with Cons.prems obtain k' where k': "find_sub sub xs = Some k'" "k = Suc k'" by auto
    from Cons.IH[OF k'(1)] have ih: "k' \<le> length xs" "take (length sub) (drop k' xs) = sub"
      "\<forall>j < k'. take (length sub) (drop j xs) \<noteq> sub" by simp_all
    have "\<forall>j < k. take (length sub) (drop j (x # xs)) \<noteq> sub"
    proof (intro allI impI)
      fix j assume "j < k"
      show "take (length sub) (drop j (x # xs)) \<noteq> sub"
      proof (cases j)
        case 0
        with False show ?thesis by simp
      next
        case (Suc j')
        with \<open>j < k\<close> k'(2) have "j' < k'" by simp
        with ih(3) Suc show ?thesis by simp
      qed
    qed
    with ih k'(2) show ?thesis by simp
  qed
qed

lemma find_sub_None:
  assumes "find_sub sub xs = None" "j \<le> length xs"
  shows "take (length sub) (drop j xs) \<noteq> sub"
  using assms
proof (induction xs arbitrary: j)
  case Nil
  then show ?case by (auto split: if_splits)
next
  case (Cons x xs)
  from Cons.prems(1) have n: "take (length sub) (x # xs) \<noteq> sub" "find_sub sub xs = None"
    by (auto split: if_splits)
  show ?case
  proof (cases j)
    case 0
    with n show ?thesis by simp
  next
    case (Suc j')
    with Cons.prems(2) have "j' \<le> length xs" by simp
    from Cons.IH[OF n(2) this] Suc show ?thesis by simp
  qed
qed

lemma bytes_find_Some:
  assumes "bytes_find data sub start = Some p"
  shows "start \<le> p" "p \<le> length data" "occurs_at sub data p"
    "filter (occurs_at sub data) [start ..< p] = []"
proof -
  from assms have le: "start \<le> length data" by (simp add: bytes_find_def split: if_splits)
  with assms obtain k where k: "find_sub sub (drop start data) = Some k" "p = start + k"
    by (auto simp: bytes_find_def)
  note f = find_sub_Some[OF k(1)]
  show "start \<le> p" using k(2) by simp
  from f have "k \<le> length data - start" by simp
  with le k(2) show "p \<le> length data" by arith
  show "occurs_at sub data p" using f k(2) by (simp add: occurs_at_def add.commute)
  have "\<not> occurs_at sub data j" if "j \<in> set [start ..< p]" for j
  proof -
    from that k(2) have "j - start < k" "j = start + (j - start)" by auto
    with f have "take (length sub) (drop (j - start) (drop start data)) \<noteq> sub" by blast
    then show ?thesis using \<open>j = start + (j - start)\<close> by (simp add: occurs_at_def add.commute)
  qed
  then show "filter (occurs_at sub data) [start ..< p] = []"
    by (simp only: filter_empty_conv) blast
qed

lemma bytes_find_None:
  assumes "bytes_find data sub start = None"
  shows "filter (occurs_at sub data) [start ..< length data + 1] = []"
proof (cases "length data < start")
  case True
  then show ?thesis by simp
next
  case False
  with assms have n: "find_sub sub (drop start data) = None" by (simp add: bytes_find_def)
  have "\<not> occurs_at sub data j" if "j \<in> set [start ..< length data + 1]" for j
  proof -
    from that have j: "start \<le> j" "j \<le> length data" by (simp_all only: range_mem)
    then have "j - start \<le> length (drop start data)" by simp
    from find_sub_None[OF n this] j show ?thesis by (simp add: occurs_at_def add.commute)
  qed
  then show ?thesis by (simp only: filter_empty_conv) blast
qed

lemma scan_signature_all:
  "scan_signature header marker data pos =
     concat (map (candidate_at marker data)
               (filter (occurs_at header data) [pos ..< length data + 1]))"
proof (induction header marker data pos rule: scan_signature.induct)
  case (1 header marker data pos)
  show ?case
  proof (cases "bytes_find data header pos")
    case None
    from bytes_find_None[OF None] None show ?thesis
      by (simp only: scan_signature.simps[of header marker data pos] option.case list.map concat.simps)
  next
    case (Some p)
    note b = bytes_find_Some[OF Some]
    have split: "[pos ..< length data + 1] = [pos ..< p] @ p # [p + 1 ..< length data + 1]"
    proof -
      have e: "p + (length data + 1 - p) = length data + 1" using b(2) by simp
      have "[pos ..< p + (length data + 1 - p)] = [pos ..< p] @ [p ..< p + (length data + 1 - p)]"
        using b(1) by (rule upt_add_eq_append)
      then have "[pos ..< length data + 1] = [pos ..< p] @ [p ..< length data + 1]"
        by (simp only: e)
      also have "[p ..< length data + 1] = p # [p + 1 ..< length data + 1]"
        using b(2) by (simp add: upt_conv_Cons)
      finally show ?thesis .
    qed
    have "scan_signature header marker data pos =
            candidate_at marker data p @ scan_signature header marker data (p + 1)"
      using Some by (simp only: scan_signature.simps[of header marker data pos] option.case
          candidate_at_def)
    also have "scan_signature header marker data (p + 1) =
                 concat (map (candidate_at marker data)
                   (filter (occurs_at header data) [p + 1 ..< length data + 1]))"
      using Some by (rule "1.IH")
    finally show ?thesis
      unfolding split using b(3,4) by simp
  qed
qed

lemma candidate_starts:
  "map fst (concat (map (candidate_at marker data) ps))
     = filter (\<lambda>p. bytes_find data marker p \<noteq> None) ps"
  by (induction ps) (auto simp: candidate_at_def split: option.splits)

text \<open>
  Claim C6, as amended.  Each scan searches the next start signature from one byte after
  the start of the previous match, not from its end.  So every position at or after the
  origin where the signature stands, and after which an end marker is found, gives a
  candidate, from the signature to the end of the first end marker at or after it; the
  candidates come in buffer order, their starts strictly increasing.  Their ranges can
  overlap: of the eight bytes \<open>FF D8 FF D8 FF E0 FF D9\<close> the JPEG scan cuts the bytes
  0 to 8 and the bytes 2 to 8, and the carver stores both when the imaging library
  accepts them.  The carver runs the scan with the PNG signature and the \<open>IEND\<close> marker, then
  with the JPEG signature and the \<open>EOI\<close> marker, both from position 0.
\<close>

theorem carver_candidates:
  "scan_signature header marker data pos =
     concat (map (candidate_at marker data)
               (filter (occurs_at header data) [pos ..< length data + 1]))
   \<and> sorted_wrt (<) (map fst (scan_signature header marker data pos))"
proof
  show "scan_signature header marker data pos =
     concat (map (candidate_at marker data)
               (filter (occurs_at header data) [pos ..< length data + 1]))"
    by (rule scan_signature_all)
  have "sorted_wrt (<) (filter (\<lambda>p. bytes_find data marker p \<noteq> None)
                          (filter (occurs_at header data) [pos ..< length data + 1]))"
    by (intro sorted_wrt_filter sorted_wrt_upt)
  then show "sorted_wrt (<) (map fst (scan_signature header marker data pos))"
    by (simp only: scan_signature_all candidate_starts)
qed

lemma carved_overlapping:
  "snd (extract_images_from_binary (\<lambda>image_data. True)
          [0xFF, 0xD8, 0xFF, 0xD8, 0xFF, 0xE0, 0xFF, 0xD9]) ''image_1.jpg''
     = Some [0xFF, 0xD8, 0xFF, 0xD8, 0xFF, 0xE0, 0xFF, 0xD9]"
  "snd (extract_images_from_binary (\<lambda>image_data. True)
          [0xFF, 0xD8, 0xFF, 0xD8, 0xFF, 0xE0, 0xFF, 0xD9]) ''image_2.jpg''
     = Some [0xFF, 0xD8, 0xFF, 0xE0, 0xFF, 0xD9]"
  by code_simp+

theorem carver_candidates_counterexample:
  "scan_signature jpg_header eoi_marker [0xFF, 0xD8, 0xFF, 0xD8, 0xFF, 0xE0, 0xFF, 0xD9] 0
     = [(0, 8), (2, 8)]
   \<and> \<not> non_overlapping
         (scan_signature jpg_header eoi_marker [0xFF, 0xD8, 0xFF, 0xD8, 0xFF, 0xE0, 0xFF, 0xD9] 0)
   \<and> snd (extract_images_from_binary (\<lambda>image_data. True)
            [0xFF, 0xD8, 0xFF, 0xD8, 0xFF, 0xE0, 0xFF, 0xD9]) ''image_1.jpg''
       = Some [0xFF, 0xD8, 0xFF, 0xD8, 0xFF, 0xE0, 0xFF, 0xD9]
   \<and> snd (extract_images_from_binary (\<lambda>image_data. True)
            [0xFF, 0xD8, 0xFF, 0xD8, 0xFF, 0xE0, 0xFF, 0xD9]) ''image_2.jpg''
       = Some [0xFF, 0xD8, 0xFF, 0xE0, 0xFF, 0xD9]"
proof -
  have "scan_signature jpg_header eoi_marker [0xFF, 0xD8, 0xFF, 0xD8, 0xFF, 0xE0, 0xFF, 0xD9] 0
     = [(0, 8), (2, 8)]"
    by code_simp
  then show ?thesis by (simp only: carved_overlapping) (simp add: non_overlapping_def)
qed

section \<open>main: the archives of a run\<close>

lemma distribute_keys:
  assumes "slides_content \<noteq> []"
  shows "\<exists>result. distribute_images slides_content image_count = Inr result
           \<and> map fst result = map fst slides_content"
proof -
  let ?sn = "sort (map fst slides_content)"
  have "length ?sn = length slides_content" by simp
  with assms have ne: "?sn \<noteq> []" by (simp only: length_0_conv[symmetric]) simp
  show ?thesis
    unfolding distribute_images_def Let_def distribute_loop_fold[OF ne]
    by (simp only: fold_append_image_keys sum.inject simp_thms ex_simps)
qed

lemma archive_step_empty:
  "archive_step env a media_store slides_content i [] st = Inr st"
  by (simp add: archive_step_def)

lemma archive_step_ok:
  assumes "ns \<noteq> []" "\<not> build_raises env (i + 1)"
    "\<forall>f. media_store f = None \<longrightarrow> \<not> save_raises env f" "\<not> zip_raises env (i + 1)"
  shows "\<exists>pkg. length (pkg_slides pkg) = length ns \<and>
           archive_step env a media_store slides_content i ns (events, archives) =
             Inr (events @ [Built (i + 1), Written (i + 1)]
                    @ (if arg_extract_dir a = None then [RemovedPartDir (i + 1)] else []),
                  archives @ [(''rebuilt_part_'' @ str (i + 1) @ ''.pptx'', pkg)])"
proof -
  from structure_succeeds[OF assms(2,3)] obtain pkg where
    p: "create_pptx_structure env media_store (file_content slides_content ns) (i + 1) 1 (length ns)
          = Inr pkg" by blast
  from structure_slide_count[OF p] have "length (pkg_slides pkg) = length ns" by simp
  moreover have "archive_step env a media_store slides_content i ns (events, archives) =
             Inr (events @ [Built (i + 1), Written (i + 1)]
                    @ (if arg_extract_dir a = None then [RemovedPartDir (i + 1)] else []),
                  archives @ [(''rebuilt_part_'' @ str (i + 1) @ ''.pptx'', pkg)])"
    using assms(1,4) p by (simp add: archive_step_def create_pptx_def Let_def)
  ultimately show ?thesis by blast
qed

lemma archive_step_zip_fails:
  assumes "ns \<noteq> []" "\<not> build_raises env (i + 1)"
    "\<forall>f. media_store f = None \<longrightarrow> \<not> save_raises env f" "zip_raises env (i + 1)"
  shows "archive_step env a media_store slides_content i ns (events, archives) =
           Inl (IOError, events @ [Built (i + 1)], archives)"
proof -
  from structure_succeeds[OF assms(2,3)] obtain pkg where
    p: "create_pptx_structure env media_store (file_content slides_content ns) (i + 1) 1 (length ns)
          = Inr pkg" by blast
  show ?thesis using assms(1,4) p by (simp add: archive_step_def create_pptx_def Let_def)
qed

lemma archive_step_build_fails:
  assumes "ns \<noteq> []" "build_raises env (i + 1)"
  shows "archive_step env a media_store slides_content i ns (events, archives) =
           Inl (IOError, events, archives)"
  using assms by (simp add: archive_step_def create_pptx_structure_def)

lemma archive_loop_ok:
  assumes "\<forall>n. \<not> build_raises env n \<and> \<not> zip_raises env n"
    "\<forall>f. media_store f = None \<longrightarrow> \<not> save_raises env f"
  shows "\<exists>events' archives'.
           archive_loop env a media_store slides_content jobs (events, archives)
             = Inr (events', archives @ archives') \<and>
           map (\<lambda>(name, pkg). length (pkg_slides pkg)) archives'
             = map length (filter (\<lambda>ns. ns \<noteq> []) (map snd jobs))"
proof (induction jobs arbitrary: events archives)
  case Nil
  show ?case by simp
next
  case (Cons job jobs)
  obtain i ns where job: "job = (i, ns)" by (cases job)
  show ?case
  proof (cases "ns = []")
    case True
    from Cons.IH[of events archives] show ?thesis
      by (simp add: job True archive_step_empty)
  next
    case False
    from assms(1) have nb: "\<not> build_raises env (i + 1)" and nz: "\<not> zip_raises env (i + 1)"
      by simp_all
    from archive_step_ok[OF False nb assms(2) nz, of a slides_content events archives]
    obtain pkg ev1 where l: "length (pkg_slides pkg) = length ns"
      and s: "archive_step env a media_store slides_content i ns (events, archives) =
                Inr (ev1, archives @ [(''rebuilt_part_'' @ str (i + 1) @ ''.pptx'', pkg)])"
      by blast
    from Cons.IH[of ev1 "archives @ [(''rebuilt_part_'' @ str (i + 1) @ ''.pptx'', pkg)]"]
    obtain events' archives' where
      r: "archive_loop env a media_store slides_content jobs
            (ev1, archives @ [(''rebuilt_part_'' @ str (i + 1) @ ''.pptx'', pkg)])
          = Inr (events', (archives @ [(''rebuilt_part_'' @ str (i + 1) @ ''.pptx'', pkg)]) @ archives')"
      and m: "map (\<lambda>(name, pkg). length (pkg_slides pkg)) archives'
             = map length (filter (\<lambda>ns. ns \<noteq> []) (map snd jobs))"
      by blast
    have "archive_loop env a media_store slides_content (job # jobs) (events, archives)
            = Inr (events', archives @ ((''rebuilt_part_'' @ str (i + 1) @ ''.pptx'', pkg) # archives'))"
      using s r by (simp add: job)
    moreover have "map (\<lambda>(name, pkg). length (pkg_slides pkg))
                     ((''rebuilt_part_'' @ str (i + 1) @ ''.pptx'', pkg) # archives')
             = map length (filter (\<lambda>ns. ns \<noteq> []) (map snd (job # jobs)))"
      using False l m by (simp add: job)
    ultimately show ?thesis by blast
  qed
qed

lemma sizes_37:
  assumes "length (xs :: 'a list) = 37"
  shows "map length (map (\<lambda>i. take 13 (drop (i * 13) xs)) [0 ..< 3]) = [13, 13, 11]"
proof -
  have "[0 ..< 3 :: nat] = [0, 1, 2]" by code_simp
  then show ?thesis using assms by simp
qed

text \<open>
  Claim C2.  Take a run of \<open>main\<close> in which no write raises, and let \<open>T \<ge> 1\<close> be
  the number of slide groups of the segmenter, \<open>S \<ge> 1\<close> the cap on the slides of one
  file and \<open>F \<ge> 1\<close> the cap on the number of files.  The splitter computes
  \<open>slides_per_file\<close> and \<open>num_files = ceil(T / slides_per_file)\<close>, and \<open>main\<close>
  returns 0 after writing exactly \<open>num_files\<close> archives, \<open>num_files \<le> F\<close> and
  \<open>num_files \<le> T\<close>; no archive is without slides, and the numbers of slides of the
  archives add up to \<open>T\<close>.  For \<open>T = 37\<close>, \<open>S = 15\<close>, \<open>F = 10\<close> the result is
  \<open>slides_per_file = 13\<close> and three archives of 13, 13 and 11 slides.
\<close>

theorem splitter_archives:
  assumes "\<forall>n. \<not> build_raises env n \<and> \<not> zip_raises env n"
    and "\<forall>f. media_store f = None \<longrightarrow> \<not> save_raises env f"
    and "T = length (organize_text_into_slides text_paragraphs (min 100 (arg_max_slides a)))"
    and "1 \<le> T" and "1 \<le> arg_slides_per_file a" and "1 \<le> arg_max_files a"
  shows "\<exists>slides_per_file num_files events archives.
           split_plan (int T) (arg_slides_per_file a) (arg_max_files a)
             = Inr (slides_per_file, num_files)
         \<and> int T \<le> num_files * slides_per_file \<and> (num_files - 1) * slides_per_file < int T
         \<and> main env a media_store image_count text_paragraphs = (Returned 0, events, archives)
         \<and> int (length archives) = num_files
         \<and> num_files \<le> arg_max_files a \<and> num_files \<le> int T
         \<and> [] \<notin> set (map (\<lambda>(name, pkg). pkg_slides pkg) archives)
         \<and> sum_list (map (\<lambda>(name, pkg). length (pkg_slides pkg)) archives) = T
         \<and> (T = 37 \<and> arg_slides_per_file a = 15 \<and> arg_max_files a = 10 \<longrightarrow>
              slides_per_file = 13 \<and>
              map (\<lambda>(name, pkg). length (pkg_slides pkg)) archives = [13, 13, 11])"
proof -
  let ?groups = "organize_text_into_slides text_paragraphs (min 100 (arg_max_slides a))"
  from assms(3,4) have ne: "?groups \<noteq> []" by auto
  from distribute_keys[OF ne, of image_count] obtain sc where
    d: "distribute_images ?groups image_count = Inr sc" and keys: "map fst sc = map fst ?groups"
    by blast
  let ?sn = "sort (map fst sc)"
  have "length ?sn = length (map fst sc)" by (simp only: length_sort)
  also have "\<dots> = T" unfolding keys assms(3) by (simp only: length_map)
  finally have len: "length ?sn = T" .
  from assms(4,5,6) have "1 \<le> int T" "1 \<le> arg_slides_per_file a" "1 \<le> arg_max_files a"
    by simp_all
  from split_plan_ok[OF this] obtain spf N where
    sp: "split_plan (int T) (arg_slides_per_file a) (arg_max_files a) = Inr (spf, N)"
    and b: "1 \<le> spf" "1 \<le> N" "N \<le> arg_max_files a" "N \<le> int T"
      "int T \<le> N * spf" "(N - 1) * spf < int T" by blast
  define k where "k = nat spf"
  define n where "n = nat N"
  have kn: "spf = int k" "N = int n" "0 < k" "0 < n" using b by (simp_all add: k_def n_def)
  have "int T \<le> int (n * k)" using b(5) unfolding kn by simp
  then have c1: "length ?sn \<le> n * k" unfolding len by (simp only: of_nat_le_iff)
  have "int ((n - 1) * k) = (N - 1) * spf" using kn by (simp add: of_nat_diff)
  then have c2: "(n - 1) * k < length ?sn" unfolding len using b(6) by linarith
  let ?parts = "map (\<lambda>i. take k (drop (i * k) ?sn)) [0 ..< n]"
  let ?jobs = "enumerate 0 (map (file_slide_numbers ?sn spf) [0 ..< nat N])"
  have jobs: "map snd ?jobs = ?parts"
    unfolding kn fsn_fun[OF kn(3)] by (simp only: map_snd_enumerate nat_int)
  have nonempty: "filter (\<lambda>ns. ns \<noteq> []) ?parts = ?parts"
  proof (rule filter_True, intro ballI)
    fix ns assume "ns \<in> set ?parts"
    then obtain i where "i < n" "ns = take k (drop (i * k) ?sn)" by auto
    then show "ns \<noteq> []" using chunk_nonempty[OF kn(3) c2] by simp
  qed
  from archive_loop_ok[OF assms(1,2), of a sc ?jobs "[]" "[]"] obtain events archives where
    l: "archive_loop env a media_store sc ?jobs ([], []) = Inr (events, archives)"
    and m: "map (\<lambda>(name, pkg). length (pkg_slides pkg)) archives = map length ?parts"
    unfolding jobs nonempty by auto
  have total: "length ?sn \<noteq> 0" unfolding len using assms(4) by simp
  have mt: "main_try env a media_store image_count text_paragraphs = (Returned 0, events, archives)"
    unfolding main_try_def Let_def using d total sp l
    by (simp only: sum.case len prod.case if_False)
  let ?events = "if arg_extract_dir a = None then events @ [RemovedExtractDir] else events"
  have mn: "main env a media_store image_count text_paragraphs = (Returned 0, ?events, archives)"
    unfolding main_def mt by (simp only: Let_def prod.case)
  have "length (map (\<lambda>(name, pkg). length (pkg_slides pkg)) archives) = n"
    unfolding m by simp
  then have la: "int (length archives) = N" unfolding kn by simp
  have "sum_list (map length ?parts) = length (concat ?parts)" by (simp only: length_concat)
  also have "\<dots> = length (take (n * k) ?sn)" by (simp only: concat_chunks)
  also have "\<dots> = T" using c1 len by simp
  finally have sm: "sum_list (map (\<lambda>(name, pkg). length (pkg_slides pkg)) archives) = T"
    unfolding m .
  have ne': "[] \<notin> set (map (\<lambda>(name, pkg). pkg_slides pkg) archives)"
  proof
    assume "[] \<in> set (map (\<lambda>(name, pkg). pkg_slides pkg) archives)"
    then obtain e where e: "e \<in> set archives" "pkg_slides (snd e) = []"
      by (auto simp: case_prod_unfold)
    then have "0 \<in> set (map (\<lambda>(name, pkg). length (pkg_slides pkg)) archives)"
      by (force simp: case_prod_unfold)
    then have "0 \<in> set (map length ?parts)" by (simp only: m)
    then have "\<exists>ns \<in> set ?parts. 0 = length ns" by (simp only: set_map image_iff)
    then obtain ns where "ns \<in> set ?parts" "length ns = 0" by force
    then have "ns \<in> set (filter (\<lambda>ns. ns \<noteq> []) ?parts)" "ns = []"
      by (simp_all only: nonempty length_0_conv)
    then show False by simp
  qed
  have inst: "spf = 13 \<and> map (\<lambda>(name, pkg). length (pkg_slides pkg)) archives = [13, 13, 11]"
    if h: "T = 37 \<and> arg_slides_per_file a = 15 \<and> arg_max_files a = 10"
  proof -
    have "split_plan 37 15 10 = Inr (13, 3)" by (simp add: split_plan_def py_floordiv_def)
    with sp h have e: "spf = 13" "N = 3" by simp_all
    then have "k = 13" "n = 3" by (simp_all add: k_def n_def)
    moreover have "length ?sn = 37" using len h by simp
    ultimately have "map length ?parts = [13, 13, 11]" by (simp only: sizes_37)
    with e(1) show ?thesis by (simp only: m simp_thms)
  qed
  show ?thesis
  proof (intro exI conjI impI)
    show "split_plan (int T) (arg_slides_per_file a) (arg_max_files a) = Inr (spf, N)"
      by (rule sp)
    show "int T \<le> N * spf" by (rule b(5))
    show "(N - 1) * spf < int T" by (rule b(6))
    show "main env a media_store image_count text_paragraphs = (Returned 0, ?events, archives)"
      by (rule mn)
    show "int (length archives) = N" by (rule la)
    show "N \<le> arg_max_files a" by (rule b(3))
    show "N \<le> int T" by (rule b(4))
    show "[] \<notin> set (map (\<lambda>(name, pkg). pkg_slides pkg) archives)" by (rule ne')
    show "sum_list (map (\<lambda>(name, pkg). length (pkg_slides pkg)) archives) = T" by (rule sm)
  next
    assume h: "T = 37 \<and> arg_slides_per_file a = 15 \<and> arg_max_files a = 10"
    from inst[OF h] show "spf = 13" by (rule conjunct1)
    from inst[OF h] show "map (\<lambda>(name, pkg). length (pkg_slides pkg)) archives = [13, 13, 11]"
      by (rule conjunct2)
  qed
qed

lemma thirty_seven_groups:
  "length (organize_text_into_slides
             (concat (map (\<lambda>k. [str k @ '' topic:'', str k @ '' body'']) [1 ..< 38])) 74) = 37"
  by code_simp

theorem splitter_archives_witness:
  "length (organize_text_into_slides
             (concat (map (\<lambda>k. [str k @ '' topic:'', str k @ '' body'']) [1 ..< 38]))
             (min 100 (arg_max_slides \<lparr>arg_max_slides = 74, arg_slides_per_file = 15,
                                         arg_max_files = 10, arg_extract_dir = None\<rparr>))) = 37
   \<and> (\<exists>events archives.
         main \<lparr>build_raises = (\<lambda>n. False), save_raises = (\<lambda>f. False),
                zip_raises = (\<lambda>n. False)\<rparr>
              \<lparr>arg_max_slides = 74, arg_slides_per_file = 15, arg_max_files = 10,
                arg_extract_dir = None\<rparr>
              Map.empty 5
              (concat (map (\<lambda>k. [str k @ '' topic:'', str k @ '' body'']) [1 ..< 38]))
           = (Returned 0, events, archives)
         \<and> length archives = 3
         \<and> map (\<lambda>(name, pkg). length (pkg_slides pkg)) archives = [13, 13, 11])"
proof -
  let ?a = "\<lparr>arg_max_slides = 74, arg_slides_per_file = 15, arg_max_files = 10,
             arg_extract_dir = None\<rparr>"
  let ?env = "\<lparr>build_raises = (\<lambda>n. False), save_raises = (\<lambda>f. False),
               zip_raises = (\<lambda>n. False)\<rparr>"
  let ?ps = "concat (map (\<lambda>k. [str k @ '' topic:'', str k @ '' body'']) [1 ..< 38])"
  have m: "min 100 (arg_max_slides ?a) = 74" by simp
  have t: "(37::nat) = length (organize_text_into_slides ?ps (min 100 (arg_max_slides ?a)))"
    unfolding m by (rule thirty_seven_groups[symmetric])
  have e: "\<forall>n. \<not> build_raises ?env n \<and> \<not> zip_raises ?env n" by simp
  have s: "\<forall>f. (Map.empty :: string \<rightharpoonup> byte list) f = None \<longrightarrow> \<not> save_raises ?env f" by simp
  from splitter_archives[OF e s t, of 5] obtain spf N events archives where
    "split_plan (int 37) (arg_slides_per_file ?a) (arg_max_files ?a) = Inr (spf, N)"
    "main ?env ?a Map.empty 5 ?ps = (Returned 0, events, archives)"
    "int (length archives) = N"
    "(37::nat) = 37 \<and> arg_slides_per_file ?a = 15 \<and> arg_max_files ?a = 10 \<longrightarrow>
       spf = 13 \<and> map (\<lambda>(name, pkg). length (pkg_slides pkg)) archives = [13, 13, 11]"
    by auto
  moreover from this have "map (\<lambda>(name, pkg). length (pkg_slides pkg)) archives = [13, 13, 11]"
    by simp
  moreover from this
  have "length (map (\<lambda>(name, pkg). length (pkg_slides pkg)) archives) = length [13::nat, 13, 11]"
    by (simp only:)
  then have "length archives = 3" by simp
  ultimately show ?thesis using t by auto
qed

section \<open>main: a failing archive\<close>

lemma two_groups:
  "organize_text_into_slides [''Hello world'', ''Second paragraph''] 100 =
     [(1, \<lparr>title = ''Hello world'', content = [], images = []\<rparr>),
      (2, \<lparr>title = ''Second paragraph'', content = [], images = []\<rparr>)]"
  by code_simp

lemma two_jobs:
  "enumerate 0 (map (file_slide_numbers [1, 2 :: nat] 1) [0 ..< 2]) = [(0, [1]), (1, [2])]"
  by code_simp

lemma two_plan: "split_plan 2 1 10 = Inr (1, 2)"
  by (simp add: split_plan_def py_floordiv_def)

lemma str_small: "str 1 = ''1''" "str 2 = ''2''" "str (Suc 0) = ''1''" "str (Suc (Suc 0)) = ''2''"
proof -
  show a: "str 1 = ''1''" by code_simp
  show b: "str 2 = ''2''" by code_simp
  from a show "str (Suc 0) = ''1''" by simp
  have "Suc (Suc 0) = 2" by simp
  with b show "str (Suc (Suc 0)) = ''2''" by (simp only:)
qed

lemma two_groups_main_try:
  "main_try env \<lparr>arg_max_slides = 100, arg_slides_per_file = 1, arg_max_files = 10,
                 arg_extract_dir = None\<rparr>
     media_store 0 [''Hello world'', ''Second paragraph'']
   = (case archive_loop env \<lparr>arg_max_slides = 100, arg_slides_per_file = 1, arg_max_files = 10,
                               arg_extract_dir = None\<rparr> media_store
             [(1, \<lparr>title = ''Hello world'', content = [], images = []\<rparr>),
              (2, \<lparr>title = ''Second paragraph'', content = [], images = []\<rparr>)]
             [(0, [1]), (1, [2])] ([], []) of
        Inl (e, events, archives) \<Rightarrow> (Raised e, events, archives)
      | Inr (events, archives) \<Rightarrow> (Returned 0, events, archives))"
proof -
  let ?a = "\<lparr>arg_max_slides = 100, arg_slides_per_file = 1, arg_max_files = 10,
             arg_extract_dir = None\<rparr>"
  let ?sc = "[(1::nat, \<lparr>title = ''Hello world'', content = [], images = []\<rparr>),
              (2, \<lparr>title = ''Second paragraph'', content = [], images = []\<rparr>)]"
  have m: "min 100 (arg_max_slides ?a) = 100" by simp
  have sn: "sort (map fst ?sc) = [1, 2]" by simp
  have tot: "length [1, 2 :: nat] = 2" by simp
  have z: "((2::nat) = 0) = False" by simp
  have i2: "int 2 = 2" by simp
  have n: "nat 2 = 2" by simp
  have s: "arg_slides_per_file ?a = 1" "arg_max_files ?a = 10" by simp_all
  show ?thesis
    by (simp only: main_try_def Let_def m two_groups distribute_no_images sum.case sn tot z
        if_False i2 s two_plan prod.case n two_jobs)
qed

text \<open>
  Claim C8.  Two fragments, one slide per file: the batch has two archives, and a run in
  which nothing fails builds and writes both.  When writing the first archive raises,
  \<open>create_pptx\<close> does not return \<open>False\<close>: the exception leaves the loop, which
  has no handler, and \<open>main\<close> ends with it after the \<open>finally\<close> clause has removed
  the working directory.  The second archive is never built, and no failure is logged.
  The same holds when building the directory of the first part raises.
\<close>

theorem failed_archive_ends_batch:
  "main \<lparr>build_raises = (\<lambda>n. False), save_raises = (\<lambda>f. False), zip_raises = (\<lambda>n. n = 1)\<rparr>
        \<lparr>arg_max_slides = 100, arg_slides_per_file = 1, arg_max_files = 10,
          arg_extract_dir = None\<rparr>
        Map.empty 0 [''Hello world'', ''Second paragraph'']
     = (Raised IOError, [Built 1, RemovedExtractDir], [])
   \<and> main \<lparr>build_raises = (\<lambda>n. n = 1), save_raises = (\<lambda>f. False), zip_raises = (\<lambda>n. False)\<rparr>
        \<lparr>arg_max_slides = 100, arg_slides_per_file = 1, arg_max_files = 10,
          arg_extract_dir = None\<rparr>
        Map.empty 0 [''Hello world'', ''Second paragraph'']
     = (Raised IOError, [RemovedExtractDir], [])
   \<and> (\<exists>pkg1 pkg2.
        main \<lparr>build_raises = (\<lambda>n. False), save_raises = (\<lambda>f. False), zip_raises = (\<lambda>n. False)\<rparr>
          \<lparr>arg_max_slides = 100, arg_slides_per_file = 1, arg_max_files = 10,
            arg_extract_dir = None\<rparr>
          Map.empty 0 [''Hello world'', ''Second paragraph'']
        = (Returned 0,
           [Built 1, Written 1, RemovedPartDir 1, Built 2, Written 2, RemovedPartDir 2,
            RemovedExtractDir],
           [(''rebuilt_part_1.pptx'', pkg1), (''rebuilt_part_2.pptx'', pkg2)]))"
proof (intro conjI)
  let ?a = "\<lparr>arg_max_slides = 100, arg_slides_per_file = 1, arg_max_files = 10,
             arg_extract_dir = None\<rparr>"
  let ?sc = "[(1::nat, \<lparr>title = ''Hello world'', content = [], images = []\<rparr>),
              (2, \<lparr>title = ''Second paragraph'', content = [], images = []\<rparr>)]"
  let ?store = "Map.empty :: string \<rightharpoonup> byte list"
  {
    let ?env = "\<lparr>build_raises = (\<lambda>n. False), save_raises = (\<lambda>f. False),
                 zip_raises = (\<lambda>n. n = 1)\<rparr>"
    have "archive_step ?env ?a ?store ?sc 0 [1] ([], []) = Inl (IOError, [] @ [Built (0 + 1)], [])"
      by (rule archive_step_zip_fails) simp_all
    then show "main ?env ?a ?store 0 [''Hello world'', ''Second paragraph'']
                 = (Raised IOError, [Built 1, RemovedExtractDir], [])"
      by (simp add: main_def two_groups_main_try)
  }
  {
    let ?env = "\<lparr>build_raises = (\<lambda>n. n = 1), save_raises = (\<lambda>f. False),
                 zip_raises = (\<lambda>n. False)\<rparr>"
    have "archive_step ?env ?a ?store ?sc 0 [1] ([], []) = Inl (IOError, [], [])"
      by (rule archive_step_build_fails) simp_all
    then show "main ?env ?a ?store 0 [''Hello world'', ''Second paragraph'']
                 = (Raised IOError, [RemovedExtractDir], [])"
      by (simp add: main_def two_groups_main_try)
  }
  {
    let ?env = "\<lparr>build_raises = (\<lambda>n. False), save_raises = (\<lambda>f. False),
                 zip_raises = (\<lambda>n. False)\<rparr>"
    have "\<exists>pkg. length (pkg_slides pkg) = length [1::nat] \<and>
            archive_step ?env ?a ?store ?sc 0 [1] ([], []) =
              Inr ([] @ [Built (0 + 1), Written (0 + 1)]
                     @ (if arg_extract_dir ?a = None then [RemovedPartDir (0 + 1)] else []),
                   [] @ [(''rebuilt_part_'' @ str (0 + 1) @ ''.pptx'', pkg)])"
      by (rule archive_step_ok) simp_all
    then obtain pkg1 where
      s1: "archive_step ?env ?a ?store ?sc 0 [1] ([], []) =
             Inr ([Built 1, Written 1, RemovedPartDir 1], [(''rebuilt_part_1.pptx'', pkg1)])"
      by (auto simp: str_small)
    have "\<exists>pkg. length (pkg_slides pkg) = length [2::nat] \<and>
            archive_step ?env ?a ?store ?sc 1 [2]
              ([Built 1, Written 1, RemovedPartDir 1], [(''rebuilt_part_1.pptx'', pkg1)]) =
              Inr ([Built 1, Written 1, RemovedPartDir 1] @ [Built (1 + 1), Written (1 + 1)]
                     @ (if arg_extract_dir ?a = None then [RemovedPartDir (1 + 1)] else []),
                   [(''rebuilt_part_1.pptx'', pkg1)]
                     @ [(''rebuilt_part_'' @ str (1 + 1) @ ''.pptx'', pkg)])"
      by (rule archive_step_ok) simp_all
    then obtain pkg2 where
      s2: "archive_step ?env ?a ?store ?sc 1 [2]
              ([Built 1, Written 1, RemovedPartDir 1], [(''rebuilt_part_1.pptx'', pkg1)]) =
             Inr ([Built 1, Written 1, RemovedPartDir 1, Built 2, Written 2, RemovedPartDir 2],
                  [(''rebuilt_part_1.pptx'', pkg1), (''rebuilt_part_2.pptx'', pkg2)])"
      by (auto simp: str_small)
    from s1 s2 have "main ?env ?a ?store 0 [''Hello world'', ''Second paragraph'']
        = (Returned 0,
           [Built 1, Written 1, RemovedPartDir 1, Built 2, Written 2, RemovedPartDir 2,
            RemovedExtractDir],
           [(''rebuilt_part_1.pptx'', pkg1), (''rebuilt_part_2.pptx'', pkg2)])"
      by (simp add: main_def two_groups_main_try)
    then show "\<exists>pkg1 pkg2.
        main ?env ?a ?store 0 [''Hello world'', ''Second paragraph'']
        = (Returned 0,
           [Built 1, Written 1, RemovedPartDir 1, Built 2, Written 2, RemovedPartDir 2,
            RemovedExtractDir],
           [(''rebuilt_part_1.pptx'', pkg1), (''rebuilt_part_2.pptx'', pkg2)])"
      by blast
  }
qed

end
